theory Spec2Isabelle
  imports Main
begin

section \<open>The account registry of antigravity-auth (lib/account-manager.ts)\<close>

text \<open>
  Conventions of the embedding.
  \<^item> A JavaScript \<open>number\<close> that holds a timestamp, an index or a counter is an \<open>int\<close>
    (no rounding at 2^53, no NaN).
  \<^item> \<open>nowMs()\<close> is the parameter \<open>now\<close> of every operation that reads the clock; the
    clock does not tick inside one synchronous call.
  \<^item> The class instance is the record \<open>AccountManager\<close>; a method takes it and returns the
    updated record together with its result. The logger is left out.
  \<^item> A method that returns an account object returns a reference to an element of
    \<open>this.accounts\<close>; the reference is the position of that element in the list of the
    state that the method returns.
\<close>

subsection \<open>Types\<close>

datatype ModelFamily = Claude | Gemini

datatype HeaderStyle = Antigravity | GeminiCli

datatype QuotaKey = QClaude | QGeminiAntigravity | QGeminiCli

datatype SwitchReason = RateLimit | Initial | Rotation

record ManagedAccount =
  index :: int
  email :: "string option"
  projectId :: string
  refreshToken :: string
  accessToken :: "string option"
  expiresAt :: "int option"
  addedAt :: int
  lastUsed :: int
  rateLimitResetTimes :: "QuotaKey \<rightharpoonup> int"
  lastSwitchReason :: "SwitchReason option"

record StoredAccount =
  s_email :: "string option"
  s_projectId :: string
  s_refreshToken :: string
  s_addedAt :: int
  s_lastUsed :: int
  s_rateLimitResetTimes :: "(QuotaKey \<rightharpoonup> int) option"

record ActiveIndex =
  a_claude :: "int option"
  a_gemini :: "int option"

text \<open>
  \<open>activeIndexByFamily\<close> and its two fields are declared as present, but
  \<open>loadFromStorage\<close> reads them with \<open>?.\<close> and \<open>??\<close>, so each may be missing.
\<close>

record AccountStorageData =
  s_accounts :: "StoredAccount list"
  activeIndexByFamily :: "ActiveIndex option"

text \<open>
  Modelled from the spec: the interface \<open>AntigravityTokens\<close> of \<open>./types\<close>, of which
  \<open>addAccount\<close> reads \<open>email\<close>, \<open>refresh_token\<close>, \<open>project_id\<close>, \<open>access_token\<close> and
  \<open>expires_at\<close>. The cached bearer credential is optional in the account, so it is
  taken as optional here too.
\<close>

record AntigravityTokens =
  tok_email :: "string option"
  refresh_token :: string
  project_id :: string
  access_token :: "string option"
  expires_at :: "int option"

record AccountManager =
  accounts :: "ManagedAccount list"
  cursor :: int
  currentAccountIndexByFamily :: "ModelFamily \<Rightarrow> int"

subsection \<open>JavaScript primitives\<close>

text \<open>The remainder operator \<open>a % b\<close> for a positive \<open>b\<close>: the sign follows the dividend.\<close>

definition js_rem :: "int \<Rightarrow> int \<Rightarrow> int" where
  "js_rem a b = (if 0 \<le> a then a mod b else - ((- a) mod b))"

text \<open>\<open>Object.keys\<close> of a partial record over the three quota keys (the order is not modelled).\<close>

definition objectKeys :: "(QuotaKey \<rightharpoonup> int) \<Rightarrow> QuotaKey list" where
  "objectKeys m = filter (\<lambda>k. m k \<noteq> None) [QClaude, QGeminiAntigravity, QGeminiCli]"

text \<open>Truthiness of an optional string: \<open>undefined\<close> and the empty string are falsy.\<close>

definition truthy :: "string option \<Rightarrow> bool" where
  "truthy e = (case e of None \<Rightarrow> False | Some t \<Rightarrow> t \<noteq> [])"

subsection \<open>Helper functions\<close>

definition getQuotaKey :: "ModelFamily \<Rightarrow> HeaderStyle \<Rightarrow> QuotaKey" where
  "getQuotaKey family headerStyle =
     (if family = Claude then QClaude
      else if headerStyle = GeminiCli then QGeminiCli else QGeminiAntigravity)"

definition isRateLimitedForQuotaKey :: "int \<Rightarrow> ManagedAccount \<Rightarrow> QuotaKey \<Rightarrow> bool" where
  "isRateLimitedForQuotaKey now account key =
     (case rateLimitResetTimes account key of
        None \<Rightarrow> False
      | Some resetTime \<Rightarrow> now < resetTime)"

definition isRateLimitedForFamily :: "int \<Rightarrow> ManagedAccount \<Rightarrow> ModelFamily \<Rightarrow> bool" where
  "isRateLimitedForFamily now account family =
     (if family = Claude then isRateLimitedForQuotaKey now account QClaude
      else isRateLimitedForQuotaKey now account QGeminiAntigravity \<and>
           isRateLimitedForQuotaKey now account QGeminiCli)"

definition clearExpiredStep :: "int \<Rightarrow> QuotaKey \<Rightarrow> (QuotaKey \<rightharpoonup> int) \<Rightarrow> (QuotaKey \<rightharpoonup> int)" where
  "clearExpiredStep now key m =
     (case m key of
        None \<Rightarrow> m
      | Some resetTime \<Rightarrow> if now \<ge> resetTime then m(key := None) else m)"

definition clearExpiredRateLimits :: "int \<Rightarrow> ManagedAccount \<Rightarrow> ManagedAccount" where
  "clearExpiredRateLimits now account =
     account\<lparr>rateLimitResetTimes :=
       fold (clearExpiredStep now) (objectKeys (rateLimitResetTimes account))
            (rateLimitResetTimes account)\<rparr>"

subsection \<open>The class AccountManager\<close>

definition initial :: AccountManager where
  "initial = \<lparr>accounts = [], cursor = 0, currentAccountIndexByFamily = (\<lambda>_. - 1)\<rparr>"

definition hydrate :: "nat \<times> StoredAccount \<Rightarrow> ManagedAccount" where
  "hydrate = (\<lambda>(i, acc).
     \<lparr>index = int i, email = s_email acc, projectId = s_projectId acc,
      refreshToken = s_refreshToken acc, accessToken = None, expiresAt = None,
      addedAt = s_addedAt acc, lastUsed = s_lastUsed acc,
      rateLimitResetTimes =
        (case s_rateLimitResetTimes acc of None \<Rightarrow> Map.empty | Some m \<Rightarrow> m),
      lastSwitchReason = None\<rparr>)"

definition storedIndex :: "AccountStorageData \<Rightarrow> (ActiveIndex \<Rightarrow> int option) \<Rightarrow> int" where
  "storedIndex data sel =
     (case activeIndexByFamily data of
        None \<Rightarrow> 0
      | Some ai \<Rightarrow> (case sel ai of None \<Rightarrow> 0 | Some v \<Rightarrow> v))"

definition loadFromStorage :: "AccountStorageData option \<Rightarrow> AccountManager \<Rightarrow> AccountManager" where
  "loadFromStorage data this =
     (case data of
        None \<Rightarrow> this\<lparr>accounts := [], cursor := 0, currentAccountIndexByFamily := (\<lambda>_. - 1)\<rparr>
      | Some d \<Rightarrow>
          if length (s_accounts d) = 0
          then this\<lparr>accounts := [], cursor := 0, currentAccountIndexByFamily := (\<lambda>_. - 1)\<rparr>
          else
            (let accs = map hydrate (enumerate 0 (s_accounts d));
                 c = js_rem (max 0 (storedIndex d a_claude)) (max 1 (int (length accs)));
                 g = js_rem (max 0 (storedIndex d a_gemini)) (max 1 (int (length accs)))
             in this\<lparr>accounts := accs,
                     currentAccountIndexByFamily :=
                       ((currentAccountIndexByFamily this)(Claude := c))(Gemini := g),
                     cursor := c\<rparr>))"

definition dehydrate :: "ManagedAccount \<Rightarrow> StoredAccount" where
  "dehydrate acc =
     \<lparr>s_email = email acc, s_projectId = projectId acc, s_refreshToken = refreshToken acc,
      s_addedAt = addedAt acc, s_lastUsed = lastUsed acc,
      s_rateLimitResetTimes =
        (if length (objectKeys (rateLimitResetTimes acc)) > 0
         then Some (rateLimitResetTimes acc) else None)\<rparr>"

definition toStorageData :: "AccountManager \<Rightarrow> AccountStorageData" where
  "toStorageData this =
     \<lparr>s_accounts = map dehydrate (accounts this),
      activeIndexByFamily =
        Some \<lparr>a_claude = Some (max 0 (currentAccountIndexByFamily this Claude)),
              a_gemini = Some (max 0 (currentAccountIndexByFamily this Gemini))\<rparr>\<rparr>"

definition sameCredential :: "AntigravityTokens \<Rightarrow> ManagedAccount \<Rightarrow> bool" where
  "sameCredential tokens a =
     ((truthy (tok_email tokens) \<and> email a = tok_email tokens) \<or>
      refreshToken a = refresh_token tokens)"

definition addAccount :: "int \<Rightarrow> AntigravityTokens \<Rightarrow> AccountManager \<Rightarrow> AccountManager \<times> nat" where
  "addAccount now tokens this =
     (case find (\<lambda>p. sameCredential tokens (accounts this ! p)) [0..<length (accounts this)] of
        Some p \<Rightarrow>
          (this\<lparr>accounts := (accounts this)[p := (accounts this ! p)
              \<lparr>refreshToken := refresh_token tokens, projectId := project_id tokens,
               accessToken := access_token tokens, expiresAt := expires_at tokens,
               email := tok_email tokens\<rparr>]\<rparr>, p)
      | None \<Rightarrow>
          (let account =
                 \<lparr>index = int (length (accounts this)), email = tok_email tokens,
                  projectId = project_id tokens, refreshToken = refresh_token tokens,
                  accessToken = access_token tokens, expiresAt = expires_at tokens,
                  addedAt = now, lastUsed = 0, rateLimitResetTimes = Map.empty,
                  lastSwitchReason = None\<rparr>;
               pushed = this\<lparr>accounts := accounts this @ [account]\<rparr>
           in ((if length (accounts pushed) = 1
                then pushed\<lparr>currentAccountIndexByFamily :=
                       ((currentAccountIndexByFamily pushed)(Claude := 0))(Gemini := 0)\<rparr>
                else pushed), length (accounts this))))"

definition reindex :: "ManagedAccount list \<Rightarrow> ManagedAccount list" where
  "reindex accs = map (\<lambda>(i, acc). acc\<lparr>index := int i\<rparr>) (enumerate 0 accs)"

definition adjustFamily :: "int \<Rightarrow> int \<Rightarrow> ModelFamily \<Rightarrow> (ModelFamily \<Rightarrow> int) \<Rightarrow> (ModelFamily \<Rightarrow> int)" where
  "adjustFamily idx len family cur =
     (let cur1 = (if cur family \<ge> idx then cur(family := max 0 (cur family - 1)) else cur)
      in cur1(family := min (cur1 family) (len - 1)))"

definition removeAccount :: "int \<Rightarrow> AccountManager \<Rightarrow> AccountManager \<times> bool" where
  "removeAccount idx this =
     (if idx < 0 \<or> idx \<ge> int (length (accounts this)) then (this, False)
      else
        (let spliced = take (nat idx) (accounts this) @ drop (Suc (nat idx)) (accounts this);
             accs = reindex spliced
         in if length accs = 0
            then (this\<lparr>accounts := accs, cursor := 0,
                       currentAccountIndexByFamily := (\<lambda>_. - 1)\<rparr>, True)
            else (this\<lparr>accounts := accs,
                       currentAccountIndexByFamily :=
                         fold (adjustFamily idx (int (length accs))) [Claude, Gemini]
                              (currentAccountIndexByFamily this),
                       cursor := min (cursor this) (int (length accs) - 1)\<rparr>, True)))"

definition getAccountCount :: "AccountManager \<Rightarrow> nat" where
  "getAccountCount this = length (accounts this)"

definition getCurrentAccountForFamily :: "AccountManager \<Rightarrow> ModelFamily \<Rightarrow> nat option" where
  "getCurrentAccountForFamily this family =
     (let i = currentAccountIndexByFamily this family
      in if i \<ge> 0 \<and> i < int (length (accounts this)) then Some (nat i) else None)"

text \<open>
  The array \<open>available\<close> of \<open>getNextForFamily\<close>, as the positions of its elements in
  \<open>this.accounts\<close> (the filter callback has cleared the expired entries before).
\<close>

definition available :: "int \<Rightarrow> ManagedAccount list \<Rightarrow> ModelFamily \<Rightarrow> nat list" where
  "available now accs family =
     filter (\<lambda>p. \<not> isRateLimitedForFamily now (accs ! p) family) [0..<length accs]"

definition getNextForFamily :: "int \<Rightarrow> AccountManager \<Rightarrow> ModelFamily \<Rightarrow> AccountManager \<times> nat option" where
  "getNextForFamily now this family =
     (let accs = map (clearExpiredRateLimits now) (accounts this);
          this1 = this\<lparr>accounts := accs\<rparr>
      in if length (available now accs family) = 0 then (this1, None)
         else
           (let k = js_rem (cursor this) (int (length (available now accs family)))
            in if k < 0 then (this1, None)
               else
                 (let p = available now accs family ! nat k
                  in (this1\<lparr>cursor := cursor this + 1,
                            accounts := accs[p := (accs ! p)\<lparr>lastUsed := now\<rparr>]\<rparr>,
                      Some p))))"

text \<open>
  The second half of \<open>getCurrentOrNextForFamily\<close> (from ``find next available''): rotate,
  and make the account found the sticky one of the family.
\<close>

definition switchToNext :: "int \<Rightarrow> AccountManager \<Rightarrow> ModelFamily \<Rightarrow> AccountManager \<times> nat option" where
  "switchToNext now this family =
     (case getNextForFamily now this family of
        (this2, None) \<Rightarrow> (this2, None)
      | (this2, Some q) \<Rightarrow>
          (this2\<lparr>currentAccountIndexByFamily :=
                    (currentAccountIndexByFamily this2)(family := index (accounts this2 ! q)),
                  accounts :=
                    (accounts this2)[q := (accounts this2 ! q)\<lparr>lastSwitchReason := Some RateLimit\<rparr>]\<rparr>,
           Some q))"

definition getCurrentOrNextForFamily :: "int \<Rightarrow> AccountManager \<Rightarrow> ModelFamily \<Rightarrow> AccountManager \<times> nat option" where
  "getCurrentOrNextForFamily now this family =
     (case getCurrentAccountForFamily this family of
        None \<Rightarrow> switchToNext now this family
      | Some p \<Rightarrow>
          (let current = clearExpiredRateLimits now (accounts this ! p);
               this1 = this\<lparr>accounts := (accounts this)[p := current]\<rparr>
           in if \<not> isRateLimitedForFamily now current family
              then (this1\<lparr>accounts := (accounts this1)[p := current\<lparr>lastUsed := now\<rparr>]\<rparr>, Some p)
              else switchToNext now this1 family))"

definition getAvailableHeaderStyle :: "int \<Rightarrow> ManagedAccount \<Rightarrow> ModelFamily \<Rightarrow> ManagedAccount \<times> HeaderStyle option" where
  "getAvailableHeaderStyle now account family =
     (let account1 = clearExpiredRateLimits now account
      in if family = Claude
         then (account1, if isRateLimitedForQuotaKey now account1 QClaude then None else Some Antigravity)
         else if \<not> isRateLimitedForQuotaKey now account1 QGeminiAntigravity
         then (account1, Some Antigravity)
         else if \<not> isRateLimitedForQuotaKey now account1 QGeminiCli
         then (account1, Some GeminiCli)
         else (account1, None))"

definition markRateLimited :: "int \<Rightarrow> int \<Rightarrow> ModelFamily \<Rightarrow> HeaderStyle \<Rightarrow> ManagedAccount \<Rightarrow> ManagedAccount" where
  "markRateLimited now retryAfterMs family headerStyle account =
     account\<lparr>rateLimitResetTimes :=
       (rateLimitResetTimes account)(getQuotaKey family headerStyle \<mapsto> now + retryAfterMs)\<rparr>"

definition updateAccountTokens :: "string \<Rightarrow> int \<Rightarrow> ManagedAccount \<Rightarrow> ManagedAccount" where
  "updateAccountTokens token expires account =
     account\<lparr>accessToken := Some token, expiresAt := Some expires\<rparr>"

text \<open>
  \<open>Array.prototype.every\<close> stops at the first element whose callback returns false; the
  callback clears the expired entries of each element it visits.
\<close>

fun everyRateLimited :: "int \<Rightarrow> ModelFamily \<Rightarrow> ManagedAccount list \<Rightarrow> ManagedAccount list \<times> bool" where
  "everyRateLimited now family [] = ([], True)"
| "everyRateLimited now family (a # as) =
     (let a1 = clearExpiredRateLimits now a
      in if isRateLimitedForFamily now a1 family
         then (case everyRateLimited now family as of (as1, r) \<Rightarrow> (a1 # as1, r))
         else (a1 # as, False))"

definition allAccountsRateLimited :: "int \<Rightarrow> AccountManager \<Rightarrow> ModelFamily \<Rightarrow> AccountManager \<times> bool" where
  "allAccountsRateLimited now this family =
     (case everyRateLimited now family (accounts this) of
        (accs, r) \<Rightarrow> (this\<lparr>accounts := accs\<rparr>, r))"

text \<open>
  A caller that holds the reference \<open>p\<close> and passes it to a method that mutates the
  account (\<open>markRateLimited\<close>, \<open>updateAccountTokens\<close>, \<open>getAvailableHeaderStyle\<close>) changes
  the element at \<open>p\<close> in place.
\<close>

definition viaRef :: "nat \<Rightarrow> (ManagedAccount \<Rightarrow> ManagedAccount) \<Rightarrow> AccountManager \<Rightarrow> AccountManager" where
  "viaRef p g this = this\<lparr>accounts := (accounts this)[p := g (accounts this ! p)]\<rparr>"

subsection \<open>Sequences of calls and reachable states\<close>

text \<open>Consecutive calls of \<open>getNextForFamily\<close>, one per clock value, with their results in order.\<close>

fun nextCalls :: "int list \<Rightarrow> AccountManager \<Rightarrow> ModelFamily \<Rightarrow> AccountManager \<times> nat option list" where
  "nextCalls [] this family = (this, [])"
| "nextCalls (now # nows) this family =
     (case getNextForFamily now this family of
        (this1, r) \<Rightarrow> (case nextCalls nows this1 family of (this2, rs) \<Rightarrow> (this2, r # rs)))"

text \<open>Consecutive calls of \<open>getCurrentOrNextForFamily\<close>.\<close>

fun currentOrNextCalls :: "int list \<Rightarrow> AccountManager \<Rightarrow> ModelFamily \<Rightarrow> AccountManager \<times> nat option list" where
  "currentOrNextCalls [] this family = (this, [])"
| "currentOrNextCalls (now # nows) this family =
     (case getCurrentOrNextForFamily now this family of
        (this1, r) \<Rightarrow> (case currentOrNextCalls nows this1 family of (this2, rs) \<Rightarrow> (this2, r # rs)))"

text \<open>
  The states of a registry: those that the public methods produce from a fresh instance,
  with any arguments and at any clock values.
\<close>

inductive reachable :: "AccountManager \<Rightarrow> bool" where
  r_new: "reachable initial"
| r_load: "reachable s \<Longrightarrow> reachable (loadFromStorage data s)"
| r_add: "reachable s \<Longrightarrow> reachable (fst (addAccount now tokens s))"
| r_remove: "reachable s \<Longrightarrow> reachable (fst (removeAccount idx s))"
| r_current: "reachable s \<Longrightarrow> reachable (fst (getCurrentOrNextForFamily now s family))"
| r_next: "reachable s \<Longrightarrow> reachable (fst (getNextForFamily now s family))"
| r_all: "reachable s \<Longrightarrow> reachable (fst (allAccountsRateLimited now s family))"
| r_mark: "reachable s \<Longrightarrow> reachable (viaRef p (markRateLimited now retry family style) s)"
| r_tokens: "reachable s \<Longrightarrow> reachable (viaRef p (updateAccountTokens token expires) s)"
| r_style: "reachable s \<Longrightarrow> reachable (viaRef p (\<lambda>a. fst (getAvailableHeaderStyle now a family)) s)"

text \<open>
  The invariant of the registry: every account's \<open>index\<close> is its position, the sticky
  index of each family is a position (or \<open>-1\<close> in the empty registry), and the cursor is
  not negative.
\<close>

definition registryInv :: "AccountManager \<Rightarrow> bool" where
  "registryInv s =
     (map index (accounts s) = map int [0..<length (accounts s)] \<and>
      0 \<le> cursor s \<and>
      (if length (accounts s) = 0
       then currentAccountIndexByFamily s Claude = - 1 \<and> currentAccountIndexByFamily s Gemini = - 1
       else 0 \<le> currentAccountIndexByFamily s Claude \<and>
            currentAccountIndexByFamily s Claude < int (length (accounts s)) \<and>
            0 \<le> currentAccountIndexByFamily s Gemini \<and>
            currentAccountIndexByFamily s Gemini < int (length (accounts s))))"

subsection \<open>Lazy expiry, as the specification words it\<close>

text \<open>
  The map without its expired entries: an entry with \<open>resetTime \<le> now\<close> is absent, every
  other entry is kept. \<open>clearExpiredRateLimits\<close> is compared with it below.
\<close>

definition withoutExpired :: "int \<Rightarrow> (QuotaKey \<rightharpoonup> int) \<Rightarrow> (QuotaKey \<rightharpoonup> int)" where
  "withoutExpired now m =
     (\<lambda>k. case m k of None \<Rightarrow> None | Some r \<Rightarrow> if r \<le> now then None else Some r)"

text \<open>The account with the entry of one quota key deleted.\<close>

definition dropEntry :: "QuotaKey \<Rightarrow> ManagedAccount \<Rightarrow> ManagedAccount" where
  "dropEntry k a = a\<lparr>rateLimitResetTimes := (rateLimitResetTimes a)(k := None)\<rparr>"

subsection \<open>Example inputs\<close>

definition tokensA :: AntigravityTokens where
  "tokensA = \<lparr>tok_email = Some ''a@example.com'', refresh_token = ''rt-a'', project_id = ''proj-a'',
               access_token = Some ''at-a'', expires_at = Some 5000\<rparr>"

definition tokensB :: AntigravityTokens where
  "tokensB = \<lparr>tok_email = Some ''b@example.com'', refresh_token = ''rt-b'', project_id = ''proj-b'',
               access_token = Some ''at-b'', expires_at = Some 6000\<rparr>"

definition tokensC :: AntigravityTokens where
  "tokensC = \<lparr>tok_email = None, refresh_token = ''rt-c'', project_id = ''proj-c'',
               access_token = None, expires_at = None\<rparr>"

text \<open>Two credential sets with the same empty email and different refresh tokens.\<close>

definition tokensBlank1 :: AntigravityTokens where
  "tokensBlank1 = \<lparr>tok_email = Some [], refresh_token = ''rt-1'', project_id = ''proj-1'',
                    access_token = None, expires_at = None\<rparr>"

definition tokensBlank2 :: AntigravityTokens where
  "tokensBlank2 = \<lparr>tok_email = Some [], refresh_token = ''rt-2'', project_id = ''proj-2'',
                    access_token = None, expires_at = None\<rparr>"

text \<open>Registries with one, two and three accounts, added at clock values 10, 20 and 30.\<close>

definition registry1 :: AccountManager where
  "registry1 = fst (addAccount 10 tokensA initial)"

definition registry2 :: AccountManager where
  "registry2 = fst (addAccount 20 tokensB registry1)"

definition registry3 :: AccountManager where
  "registry3 = fst (addAccount 30 tokensC registry2)"

section \<open>Auxiliary facts\<close>

subsection \<open>Lazy expiry\<close>

lemma objectKeys_set: "k \<in> set (objectKeys m) \<longleftrightarrow> m k \<noteq> None"
  by (cases k) (auto simp: objectKeys_def)

lemma clearExpiredStep_lookup:
  "clearExpiredStep now x m k =
     (if k = x then (case m x of None \<Rightarrow> None | Some r \<Rightarrow> if now \<ge> r then None else Some r)
      else m k)"
  by (simp add: clearExpiredStep_def split: option.splits)

lemma fold_clearExpiredStep:
  "fold (clearExpiredStep now) ks m k =
     (if k \<in> set ks then (case m k of None \<Rightarrow> None | Some r \<Rightarrow> if now \<ge> r then None else Some r)
      else m k)"
  by (induction ks arbitrary: m) (simp_all add: clearExpiredStep_lookup split: option.splits)

lemma clear_lookup:
  "rateLimitResetTimes (clearExpiredRateLimits now a) k =
     (case rateLimitResetTimes a k of
        None \<Rightarrow> None
      | Some r \<Rightarrow> if now \<ge> r then None else Some r)"
  by (simp add: clearExpiredRateLimits_def fold_clearExpiredStep objectKeys_set split: option.splits)

lemma clear_limitedKey [simp]:
  "isRateLimitedForQuotaKey now (clearExpiredRateLimits now a) k = isRateLimitedForQuotaKey now a k"
  by (simp add: isRateLimitedForQuotaKey_def clear_lookup split: option.splits)

lemma clear_limitedFamily [simp]:
  "isRateLimitedForFamily now (clearExpiredRateLimits now a) f = isRateLimitedForFamily now a f"
  by (simp add: isRateLimitedForFamily_def)

lemma everyRateLimited_result:
  "snd (everyRateLimited now f as) = (\<forall>a\<in>set as. isRateLimitedForFamily now a f)"
  by (induction as) (auto simp: Let_def split: prod.splits)

subsection \<open>The invariant is kept by every method\<close>

lemma index_clear [simp]: "index (clearExpiredRateLimits now a) = index a"
  by (simp add: clearExpiredRateLimits_def)

lemma map_index_update:
  assumes "index b = index (accs ! p)"
  shows "map index (accs[p := b]) = map index accs"
proof (cases "p < length accs")
  case True
  with assms show ?thesis by (simp add: map_update list_update_same_conv)
next
  case False
  then have "accs[p := b] = accs" by (simp add: list_update_beyond)
  then show ?thesis by simp
qed

lemma js_rem_nonneg: "0 \<le> a \<Longrightarrow> js_rem a b = a mod b"
  by (simp add: js_rem_def)

lemma inv_initial: "registryInv initial"
  by (simp add: registryInv_def initial_def)

lemma map_index_hydrate: "map index (map hydrate (enumerate n xs)) = map int [n..<n + length xs]"
  by (induction xs arbitrary: n) (simp_all add: hydrate_def upt_rec)

lemma load_empty:
  "data = None \<or> (\<exists>d. data = Some d \<and> s_accounts d = []) \<Longrightarrow>
   loadFromStorage data s = s\<lparr>accounts := [], cursor := 0, currentAccountIndexByFamily := (\<lambda>_. - 1)\<rparr>"
  by (auto simp: loadFromStorage_def)

lemma load_nonempty:
  assumes "s_accounts d \<noteq> []"
  shows "accounts (loadFromStorage (Some d) s) = map hydrate (enumerate 0 (s_accounts d))"
    and "currentAccountIndexByFamily (loadFromStorage (Some d) s) Claude =
           max 0 (storedIndex d a_claude) mod int (length (s_accounts d))"
    and "currentAccountIndexByFamily (loadFromStorage (Some d) s) Gemini =
           max 0 (storedIndex d a_gemini) mod int (length (s_accounts d))"
    and "cursor (loadFromStorage (Some d) s) =
           max 0 (storedIndex d a_claude) mod int (length (s_accounts d))"
proof -
  have n: "max 1 (int (length (s_accounts d))) = int (length (s_accounts d))"
    using assms by (cases "s_accounts d") simp_all
  show "accounts (loadFromStorage (Some d) s) = map hydrate (enumerate 0 (s_accounts d))"
    using assms by (simp add: loadFromStorage_def Let_def)
  show "currentAccountIndexByFamily (loadFromStorage (Some d) s) Claude =
           max 0 (storedIndex d a_claude) mod int (length (s_accounts d))"
    using assms by (simp add: loadFromStorage_def Let_def js_rem_nonneg n)
  show "currentAccountIndexByFamily (loadFromStorage (Some d) s) Gemini =
           max 0 (storedIndex d a_gemini) mod int (length (s_accounts d))"
    using assms by (simp add: loadFromStorage_def Let_def js_rem_nonneg n)
  show "cursor (loadFromStorage (Some d) s) =
           max 0 (storedIndex d a_claude) mod int (length (s_accounts d))"
    using assms by (simp add: loadFromStorage_def Let_def js_rem_nonneg n)
qed

lemma inv_load: "registryInv (loadFromStorage data s)"
proof (cases "data = None \<or> (\<exists>d. data = Some d \<and> s_accounts d = [])")
  case True
  then show ?thesis by (simp add: load_empty registryInv_def)
next
  case False
  then obtain d where d: "data = Some d" "s_accounts d \<noteq> []" by auto
  then have pos: "0 < int (length (s_accounts d))" by simp
  show ?thesis
    unfolding d registryInv_def
    using pos map_index_hydrate [of 0 "s_accounts d"]
    by (simp add: load_nonempty [OF d(2)])
qed

lemma map_index_reindex_from:
  "map index (map (\<lambda>(i, acc). acc\<lparr>index := int i\<rparr>) (enumerate n xs)) = map int [n..<n + length xs]"
  by (induction xs arbitrary: n) (simp_all add: upt_rec)

lemma length_reindex [simp]: "length (reindex xs) = length xs"
  by (simp add: reindex_def)

lemma reindex_Nil_iff [simp]: "reindex xs = [] \<longleftrightarrow> xs = []"
  by (simp add: reindex_def enumerate_eq_zip)

lemma map_index_reindex: "map index (reindex xs) = map int [0..<length xs]"
  using map_index_reindex_from [of 0 xs] by (simp add: reindex_def)

lemma remove_invalid:
  "idx < 0 \<or> int (length (accounts s)) \<le> idx \<Longrightarrow> removeAccount idx s = (s, False)"
  by (auto simp: removeAccount_def)

lemma fold_adjustFamily:
  "fold (adjustFamily idx len) [Claude, Gemini] cur =
     (\<lambda>f. min (if cur f \<ge> idx then max 0 (cur f - 1) else cur f) (len - 1))"
proof
  fix f
  show "fold (adjustFamily idx len) [Claude, Gemini] cur f =
          min (if cur f \<ge> idx then max 0 (cur f - 1) else cur f) (len - 1)"
    by (cases f) (simp_all add: adjustFamily_def Let_def)
qed

lemma remove_valid:
  assumes "0 \<le> idx" "idx < int (length (accounts s))"
    and sp: "sp = take (nat idx) (accounts s) @ drop (Suc (nat idx)) (accounts s)"
  shows "removeAccount idx s =
    (if length (accounts s) = 1
     then (s\<lparr>accounts := [], cursor := 0, currentAccountIndexByFamily := (\<lambda>_. - 1)\<rparr>, True)
     else (s\<lparr>accounts := reindex sp,
             currentAccountIndexByFamily :=
               (\<lambda>f. min (if currentAccountIndexByFamily s f \<ge> idx
                        then max 0 (currentAccountIndexByFamily s f - 1)
                        else currentAccountIndexByFamily s f)
                       (int (length (accounts s)) - 2)),
             cursor := min (cursor s) (int (length (accounts s)) - 2)\<rparr>, True))"
    and "length sp = length (accounts s) - 1"
proof -
  show len: "length sp = length (accounts s) - 1"
    using assms by simp
  have valid: "\<not> (idx < 0 \<or> int (length (accounts s)) \<le> idx)"
    using assms by linarith
  have unf: "removeAccount idx s =
    (if length (reindex sp) = 0
     then (s\<lparr>accounts := reindex sp, cursor := 0, currentAccountIndexByFamily := (\<lambda>_. - 1)\<rparr>, True)
     else (s\<lparr>accounts := reindex sp,
             currentAccountIndexByFamily :=
               fold (adjustFamily idx (int (length (reindex sp)))) [Claude, Gemini]
                    (currentAccountIndexByFamily s),
             cursor := min (cursor s) (int (length (reindex sp)) - 1)\<rparr>, True))"
    unfolding removeAccount_def Let_def sp using valid by (simp only: if_False)
  show "removeAccount idx s =
    (if length (accounts s) = 1
     then (s\<lparr>accounts := [], cursor := 0, currentAccountIndexByFamily := (\<lambda>_. - 1)\<rparr>, True)
     else (s\<lparr>accounts := reindex sp,
             currentAccountIndexByFamily :=
               (\<lambda>f. min (if currentAccountIndexByFamily s f \<ge> idx
                        then max 0 (currentAccountIndexByFamily s f - 1)
                        else currentAccountIndexByFamily s f)
                       (int (length (accounts s)) - 2)),
             cursor := min (cursor s) (int (length (accounts s)) - 2)\<rparr>, True))"
  proof (cases "length (accounts s) = 1")
    case True
    then have "sp = []" using len by simp
    then show ?thesis using True unfolding unf by (simp add: reindex_def)
  next
    case False
    then have big: "2 \<le> length (accounts s)" using assms by linarith
    then have l2: "int (length sp) - 1 = int (length (accounts s)) - 2" and "length sp \<noteq> 0"
      using len by linarith+
    then show ?thesis using False
      unfolding unf fold_adjustFamily length_reindex by (simp only: if_False)
  qed
qed

lemma inv_remove:
  assumes "registryInv s"
  shows "registryInv (fst (removeAccount idx s))"
proof (cases "0 \<le> idx \<and> idx < int (length (accounts s))")
  case False
  then have "idx < 0 \<or> int (length (accounts s)) \<le> idx" by linarith
  then show ?thesis using assms by (simp add: remove_invalid)
next
  case True
  then have v: "0 \<le> idx" "idx < int (length (accounts s))" by auto
  define sp where "sp = take (nat idx) (accounts s) @ drop (Suc (nat idx)) (accounts s)"
  note rv = remove_valid [OF v sp_def]
  show ?thesis
  proof (cases "length (accounts s) = 1")
    case True
    then show ?thesis
      by (simp only: rv(1) if_True fst_conv) (simp add: registryInv_def)
  next
    case False
    then have big: "2 \<le> length (accounts s)" using v by linarith
    then have ne: "accounts s \<noteq> []" by auto
    have st: "0 \<le> currentAccountIndexByFamily s f \<and> currentAccountIndexByFamily s f < int (length (accounts s))" for f
      using assms ne by (cases f) (simp_all add: registryInv_def)
    have c: "0 \<le> cursor s" using assms by (simp add: registryInv_def)
    have l1: "int (length (accounts s) - 1) = int (length (accounts s)) - 1" using big by linarith
    have spne: "sp \<noteq> []" using rv(2) big by auto
    show ?thesis using False big st [of Claude] st [of Gemini] c spne
      by (simp only: rv(1) if_False fst_conv)
         (auto simp add: registryInv_def map_index_reindex rv(2) l1)
  qed
qed

lemma find_position_Some:
  "find P [0..<n] = Some p \<longleftrightarrow> p < n \<and> P p \<and> (\<forall>q<p. \<not> P q)"
  by (auto simp: find_Some_iff)

lemma find_position_None:
  "find P [0..<n] = None \<longleftrightarrow> (\<forall>p<n. \<not> P p)"
  by (auto simp: find_None_iff)

lemma add_found:
  assumes "p < length (accounts s)" "sameCredential tokens (accounts s ! p)"
    "\<forall>q<p. \<not> sameCredential tokens (accounts s ! q)"
  shows "addAccount now tokens s =
    (s\<lparr>accounts := (accounts s)[p := (accounts s ! p)
        \<lparr>refreshToken := refresh_token tokens, projectId := project_id tokens,
         accessToken := access_token tokens, expiresAt := expires_at tokens,
         email := tok_email tokens\<rparr>]\<rparr>, p)"
proof -
  have "find (\<lambda>p. sameCredential tokens (accounts s ! p)) [0..<length (accounts s)] = Some p"
    using assms by (simp add: find_position_Some)
  then show ?thesis by (simp add: addAccount_def)
qed

lemma add_fresh:
  assumes "\<forall>p<length (accounts s). \<not> sameCredential tokens (accounts s ! p)"
  shows "addAccount now tokens s =
    (s\<lparr>accounts := accounts s @
          [\<lparr>index = int (length (accounts s)), email = tok_email tokens,
            projectId = project_id tokens, refreshToken = refresh_token tokens,
            accessToken = access_token tokens, expiresAt = expires_at tokens,
            addedAt = now, lastUsed = 0, rateLimitResetTimes = Map.empty,
            lastSwitchReason = None\<rparr>],
       currentAccountIndexByFamily :=
         (if accounts s = []
          then ((currentAccountIndexByFamily s)(Claude := 0))(Gemini := 0)
          else currentAccountIndexByFamily s)\<rparr>, length (accounts s))"
proof -
  have "find (\<lambda>p. sameCredential tokens (accounts s ! p)) [0..<length (accounts s)] = None"
    using assms by (simp add: find_position_None)
  then show ?thesis by (cases "accounts s = []") (simp_all add: addAccount_def Let_def)
qed

lemma add_cases:
  obtains (found) p where "p < length (accounts s)" "sameCredential tokens (accounts s ! p)"
    "\<forall>q<p. \<not> sameCredential tokens (accounts s ! q)"
  | (fresh) "\<forall>p<length (accounts s). \<not> sameCredential tokens (accounts s ! p)"
proof (cases "find (\<lambda>p. sameCredential tokens (accounts s ! p)) [0..<length (accounts s)]")
  case None
  then show ?thesis using fresh by (simp add: find_position_None)
next
  case (Some p)
  then show ?thesis using found [of p] by (simp add: find_position_Some)
qed

lemma inv_add:
  assumes "registryInv s"
  shows "registryInv (fst (addAccount now tokens s))"
proof (cases rule: add_cases [of s tokens])
  case (found p)
  then show ?thesis using assms
    by (simp add: add_found registryInv_def map_index_update)
next
  case fresh
  then show ?thesis using assms
    by (cases "accounts s = []") (simp_all add: add_fresh registryInv_def)
qed

lemma inv_viaRef:
  assumes "\<And>a. index (g a) = index a" "registryInv s"
  shows "registryInv (viaRef p g s)"
  using assms by (simp add: registryInv_def viaRef_def map_index_update)

lemma length_every [simp]: "length (fst (everyRateLimited now f as)) = length as"
  by (induction as) (auto simp: Let_def split: prod.splits)

lemma map_index_every [simp]: "map index (fst (everyRateLimited now f as)) = map index as"
  by (induction as) (auto simp: Let_def split: prod.splits)

lemma inv_all:
  assumes "registryInv s"
  shows "registryInv (fst (allAccountsRateLimited now s f))"
proof -
  obtain accs r where e: "everyRateLimited now f (accounts s) = (accs, r)"
    by (cases "everyRateLimited now f (accounts s)")
  have "length accs = length (accounts s)" "map index accs = map index (accounts s)"
    using length_every [of now f "accounts s"] map_index_every [of now f "accounts s"]
    by (simp_all add: e)
  then show ?thesis using assms
    by (simp add: allAccountsRateLimited_def e registryInv_def)
qed

lemma available_bound: "k < length (available now accs f) \<Longrightarrow> available now accs f ! k < length accs"
proof -
  assume "k < length (available now accs f)"
  then have "available now accs f ! k \<in> set (available now accs f)" by (rule nth_mem)
  then show ?thesis by (simp add: available_def)
qed

lemma js_rem_bound:
  assumes b: "0 < b"
  shows "js_rem a b < b"
proof (cases "0 \<le> a")
  case True
  then show ?thesis using b by (simp add: js_rem_def)
next
  case False
  have "0 \<le> (- a) mod b" using b by simp
  then have "- ((- a) mod b) < b" using b by linarith
  then show ?thesis using False by (simp only: js_rem_def if_False)
qed

lemma next_cases:
  obtains (none) "getNextForFamily now s f = (s\<lparr>accounts := map (clearExpiredRateLimits now) (accounts s)\<rparr>, None)"
  | (some) p where "p < length (accounts s)"
      "p \<in> set (available now (map (clearExpiredRateLimits now) (accounts s)) f)"
      "getNextForFamily now s f =
        (s\<lparr>cursor := cursor s + 1,
           accounts := (map (clearExpiredRateLimits now) (accounts s))
             [p := (clearExpiredRateLimits now (accounts s ! p))\<lparr>lastUsed := now\<rparr>]\<rparr>, Some p)"
proof -
  let ?accs = "map (clearExpiredRateLimits now) (accounts s)"
  let ?av = "available now ?accs f"
  let ?k = "js_rem (cursor s) (int (length ?av))"
  show ?thesis
  proof (cases "length ?av = 0 \<or> ?k < 0")
    case True
    then have "getNextForFamily now s f = (s\<lparr>accounts := ?accs\<rparr>, None)"
      by (auto simp: getNextForFamily_def Let_def)
    then show ?thesis by (rule none)
  next
    case False
    then have k0: "0 \<le> ?k" and n0: "0 < int (length ?av)" by auto
    have "?k < int (length ?av)" using n0 by (rule js_rem_bound)
    then have kl: "nat ?k < length ?av" using k0 by linarith
    then have pl: "?av ! nat ?k < length ?accs" by (rule available_bound)
    have mem: "?av ! nat ?k \<in> set ?av" using kl by (rule nth_mem)
    have "getNextForFamily now s f =
        (s\<lparr>cursor := cursor s + 1,
           accounts := ?accs[?av ! nat ?k := (?accs ! (?av ! nat ?k))\<lparr>lastUsed := now\<rparr>]\<rparr>, Some (?av ! nat ?k))"
      using False by (simp add: getNextForFamily_def Let_def)
    then have "getNextForFamily now s f =
        (s\<lparr>cursor := cursor s + 1,
           accounts := ?accs[?av ! nat ?k := (clearExpiredRateLimits now (accounts s ! (?av ! nat ?k)))\<lparr>lastUsed := now\<rparr>]\<rparr>, Some (?av ! nat ?k))"
      using pl by simp
    then show ?thesis using pl mem some [of "?av ! nat ?k"] by simp
  qed
qed

lemma index_comp_clear [simp]: "index \<circ> clearExpiredRateLimits now = index"
  by (rule ext) simp

lemma inv_next:
  assumes "registryInv s"
  shows "registryInv (fst (getNextForFamily now s f))"
proof (cases rule: next_cases [of now s f])
  case none
  then show ?thesis using assms by (simp add: registryInv_def)
next
  case (some p)
  then show ?thesis using assms by (simp add: registryInv_def map_index_update)
qed

lemma index_at_position:
  assumes "registryInv s" "q < length (accounts s)"
  shows "index (accounts s ! q) = int q"
proof -
  have "map index (accounts s) ! q = map int [0..<length (accounts s)] ! q"
    using assms by (simp add: registryInv_def)
  then show ?thesis using assms(2) by simp
qed

lemma inv_switch:
  assumes "registryInv s"
  shows "registryInv (fst (switchToNext now s f))"
proof (cases rule: next_cases [of now s f])
  case none
  then show ?thesis using assms by (simp add: switchToNext_def registryInv_def)
next
  case (some p)
  define s2 where "s2 = fst (getNextForFamily now s f)"
  have res: "getNextForFamily now s f = (s2, Some p)"
    by (simp add: s2_def some(3))
  have inv2: "registryInv s2" unfolding s2_def using assms by (rule inv_next)
  have pl: "p < length (accounts s2)"
    using some(1) by (simp add: s2_def some(3))
  have ip: "index (accounts s2 ! p) = int p"
    using inv2 pl by (rule index_at_position)
  have sw: "fst (switchToNext now s f) =
     s2\<lparr>currentAccountIndexByFamily := (currentAccountIndexByFamily s2)(f := int p),
        accounts := (accounts s2)[p := (accounts s2 ! p)\<lparr>lastSwitchReason := Some RateLimit\<rparr>]\<rparr>"
    by (simp add: switchToNext_def res ip)
  show ?thesis unfolding sw using inv2 pl
    by (cases f) (auto simp: registryInv_def map_index_update)
qed

lemma inv_current:
  assumes "registryInv s"
  shows "registryInv (fst (getCurrentOrNextForFamily now s f))"
proof (cases "getCurrentAccountForFamily s f")
  case None
  then show ?thesis using assms by (simp add: getCurrentOrNextForFamily_def inv_switch)
next
  case (Some p)
  have i1: "registryInv (s\<lparr>accounts := (accounts s)[p := clearExpiredRateLimits now (accounts s ! p)]\<rparr>)"
    using assms by (simp add: registryInv_def map_index_update)
  have i2: "registryInv (s\<lparr>accounts := (accounts s)[p := (clearExpiredRateLimits now (accounts s ! p))\<lparr>lastUsed := now\<rparr>]\<rparr>)"
    using assms by (simp add: registryInv_def map_index_update)
  show ?thesis using i1 i2
    by (simp add: getCurrentOrNextForFamily_def Some Let_def inv_switch)
qed

lemma reachable_inv: "reachable s \<Longrightarrow> registryInv s"
proof (induction rule: reachable.induct)
  case r_new
  show ?case by (rule inv_initial)
next
  case (r_load s data)
  show ?case by (rule inv_load)
next
  case (r_add s now tokens)
  then show ?case by (simp add: inv_add)
next
  case (r_remove s idx)
  then show ?case by (simp add: inv_remove)
next
  case (r_current s now family)
  then show ?case by (simp add: inv_current)
next
  case (r_next s now family)
  then show ?case by (simp add: inv_next)
next
  case (r_all s now family)
  then show ?case by (simp add: inv_all)
next
  case (r_mark s p now retry family style)
  then show ?case by (intro inv_viaRef) (simp_all add: markRateLimited_def)
next
  case (r_tokens s p token expires)
  then show ?case by (intro inv_viaRef) (simp_all add: updateAccountTokens_def)
next
  case (r_style s p now family)
  then show ?case by (intro inv_viaRef) (simp_all add: getAvailableHeaderStyle_def Let_def)
qed

subsection \<open>The example registries\<close>

lemma registry1_eq:
  "registry1 = \<lparr>accounts =
      [\<lparr>index = 0, email = Some ''a@example.com'', projectId = ''proj-a'', refreshToken = ''rt-a'',
        accessToken = Some ''at-a'', expiresAt = Some 5000, addedAt = 10, lastUsed = 0,
        rateLimitResetTimes = Map.empty, lastSwitchReason = None\<rparr>],
     cursor = 0, currentAccountIndexByFamily = (\<lambda>_. 0)\<rparr>"
proof -
  have "(\<lambda>_::ModelFamily. - 1::int)(Claude := 0, Gemini := 0) = (\<lambda>_. 0)"
  proof
    fix f :: ModelFamily show "((\<lambda>_. - 1::int)(Claude := 0, Gemini := 0)) f = 0" by (cases f) simp_all
  qed
  then show ?thesis
    by (simp add: registry1_def addAccount_def initial_def tokensA_def Let_def)
qed

lemma next_registry1:
  "getNextForFamily 40 registry1 Claude =
     (\<lparr>accounts =
      [\<lparr>index = 0, email = Some ''a@example.com'', projectId = ''proj-a'', refreshToken = ''rt-a'',
        accessToken = Some ''at-a'', expiresAt = Some 5000, addedAt = 10, lastUsed = 40,
        rateLimitResetTimes = Map.empty, lastSwitchReason = None\<rparr>],
     cursor = 1, currentAccountIndexByFamily = (\<lambda>_. 0)\<rparr>, Some 0)"
  by (simp add: registry1_eq getNextForFamily_def available_def clearExpiredRateLimits_def objectKeys_def
      isRateLimitedForFamily_def isRateLimitedForQuotaKey_def js_rem_def Let_def)

lemma emptied_eq:
  "fst (removeAccount 0 registry1) =
     \<lparr>accounts = [], cursor = 0, currentAccountIndexByFamily = (\<lambda>_. - 1)\<rparr>"
  by (simp add: registry1_eq removeAccount_def reindex_def Let_def)

subsection \<open>Positions after a removal\<close>

lemma nth_reindex: "p < length xs \<Longrightarrow> reindex xs ! p = (xs ! p)\<lparr>index := int p\<rparr>"
  by (simp add: reindex_def nth_enumerate_eq)

lemma nth_spliced:
  assumes "i < length xs" "p < length xs - 1"
  shows "(take i xs @ drop (Suc i) xs) ! p = (if p < i then xs ! p else xs ! Suc p)"
  using assms by (auto simp: nth_append min_def)

lemma registry2_eq:
  "registry2 = \<lparr>accounts =
      [\<lparr>index = 0, email = Some ''a@example.com'', projectId = ''proj-a'', refreshToken = ''rt-a'',
        accessToken = Some ''at-a'', expiresAt = Some 5000, addedAt = 10, lastUsed = 0,
        rateLimitResetTimes = Map.empty, lastSwitchReason = None\<rparr>,
       \<lparr>index = 1, email = Some ''b@example.com'', projectId = ''proj-b'', refreshToken = ''rt-b'',
        accessToken = Some ''at-b'', expiresAt = Some 6000, addedAt = 20, lastUsed = 0,
        rateLimitResetTimes = Map.empty, lastSwitchReason = None\<rparr>],
     cursor = 0, currentAccountIndexByFamily = (\<lambda>_. 0)\<rparr>"
  by (simp add: registry2_def registry1_eq addAccount_def tokensB_def sameCredential_def truthy_def Let_def)

lemma registry3_eq:
  "registry3 = \<lparr>accounts =
      [\<lparr>index = 0, email = Some ''a@example.com'', projectId = ''proj-a'', refreshToken = ''rt-a'',
        accessToken = Some ''at-a'', expiresAt = Some 5000, addedAt = 10, lastUsed = 0,
        rateLimitResetTimes = Map.empty, lastSwitchReason = None\<rparr>,
       \<lparr>index = 1, email = Some ''b@example.com'', projectId = ''proj-b'', refreshToken = ''rt-b'',
        accessToken = Some ''at-b'', expiresAt = Some 6000, addedAt = 20, lastUsed = 0,
        rateLimitResetTimes = Map.empty, lastSwitchReason = None\<rparr>,
       \<lparr>index = 2, email = None, projectId = ''proj-c'', refreshToken = ''rt-c'',
        accessToken = None, expiresAt = None, addedAt = 30, lastUsed = 0,
        rateLimitResetTimes = Map.empty, lastSwitchReason = None\<rparr>],
     cursor = 0, currentAccountIndexByFamily = (\<lambda>_. 0)\<rparr>"
  by (simp add: registry3_def registry2_eq addAccount_def tokensC_def sameCredential_def truthy_def Let_def
      upt_rec [of 0 2])

lemma blank1_eq:
  "fst (addAccount 10 tokensBlank1 initial) = \<lparr>accounts =
      [\<lparr>index = 0, email = Some [], projectId = ''proj-1'', refreshToken = ''rt-1'',
        accessToken = None, expiresAt = None, addedAt = 10, lastUsed = 0,
        rateLimitResetTimes = Map.empty, lastSwitchReason = None\<rparr>],
     cursor = 0, currentAccountIndexByFamily = ((\<lambda>_. - 1)(Claude := 0))(Gemini := 0)\<rparr>"
  by (simp add: addAccount_def initial_def tokensBlank1_def Let_def)

subsection \<open>Persistence\<close>

lemma objectKeys_Nil: "objectKeys m = [] \<Longrightarrow> m = Map.empty"
proof
  fix k assume "objectKeys m = []"
  then have "k \<notin> set (objectKeys m)" by simp
  then show "m k = None" by (simp add: objectKeys_set)
qed

lemma hydrate_dehydrate:
  "hydrate (p, dehydrate a) =
     \<lparr>index = int p, email = email a, projectId = projectId a, refreshToken = refreshToken a,
      accessToken = None, expiresAt = None, addedAt = addedAt a, lastUsed = lastUsed a,
      rateLimitResetTimes = rateLimitResetTimes a, lastSwitchReason = None\<rparr>"
  by (auto simp: hydrate_def dehydrate_def dest: objectKeys_Nil)

lemma storedIndex_toStorageData:
  "storedIndex (toStorageData s) a_claude = max 0 (currentAccountIndexByFamily s Claude)"
  "storedIndex (toStorageData s) a_gemini = max 0 (currentAccountIndexByFamily s Gemini)"
  by (simp_all add: storedIndex_def toStorageData_def)

lemma roundtrip_accounts:
  "accounts (loadFromStorage (Some (toStorageData s)) other) =
     map (\<lambda>(p, a). hydrate (p, dehydrate a)) (enumerate 0 (accounts s))"
proof (cases "accounts s = []")
  case True
  then have "loadFromStorage (Some (toStorageData s)) other =
    other\<lparr>accounts := [], cursor := 0, currentAccountIndexByFamily := (\<lambda>_. - 1)\<rparr>"
    by (intro load_empty) (simp add: toStorageData_def)
  then show ?thesis using True by simp
next
  case False
  then have ne: "s_accounts (toStorageData s) \<noteq> []" by (simp add: toStorageData_def)
  have "map hydrate (enumerate 0 (map dehydrate (accounts s))) =
        map (\<lambda>(p, a). hydrate (p, dehydrate a)) (enumerate 0 (accounts s))"
    by (rule nth_equalityI) (simp_all add: nth_enumerate_eq)
  then show ?thesis
    by (simp add: load_nonempty(1) [OF ne]) (simp add: toStorageData_def)
qed

lemma roundtrip_sticky:
  "currentAccountIndexByFamily (loadFromStorage (Some (toStorageData s)) other) f =
     (if accounts s = [] then - 1
      else max 0 (currentAccountIndexByFamily s f) mod int (length (accounts s)))"
proof (cases "accounts s = []")
  case True
  then have "loadFromStorage (Some (toStorageData s)) other =
    other\<lparr>accounts := [], cursor := 0, currentAccountIndexByFamily := (\<lambda>_. - 1)\<rparr>"
    by (intro load_empty) (simp add: toStorageData_def)
  then show ?thesis using True by simp
next
  case False
  then have ne: "s_accounts (toStorageData s) \<noteq> []" by (simp add: toStorageData_def)
  have l: "length (s_accounts (toStorageData s)) = length (accounts s)"
    by (simp add: toStorageData_def)
  show ?thesis using False
    by (cases f) (simp_all add: load_nonempty [OF ne] storedIndex_toStorageData l)
qed

lemma marked2_at0:
  "accounts (viaRef 0 (markRateLimited 100 60000 Gemini Antigravity) registry2) ! 0 =
     \<lparr>index = 0, email = Some ''a@example.com'', projectId = ''proj-a'', refreshToken = ''rt-a'',
        accessToken = Some ''at-a'', expiresAt = Some 5000, addedAt = 10, lastUsed = 0,
        rateLimitResetTimes = [QGeminiAntigravity \<mapsto> 60100], lastSwitchReason = None\<rparr>"
  by (simp add: viaRef_def registry2_eq markRateLimited_def getQuotaKey_def)

subsection \<open>Stickiness\<close>

lemma limitedKey_clear_mono:
  "isRateLimitedForQuotaKey t (clearExpiredRateLimits now a) k \<Longrightarrow> isRateLimitedForQuotaKey t a k"
  by (auto simp: isRateLimitedForQuotaKey_def clear_lookup split: option.splits if_splits)

lemma limited_clear_mono:
  "isRateLimitedForFamily t (clearExpiredRateLimits now a) f \<Longrightarrow> isRateLimitedForFamily t a f"
  by (auto simp: isRateLimitedForFamily_def dest: limitedKey_clear_mono split: if_splits)

lemma limited_lastUsed [simp]:
  "isRateLimitedForFamily t (a\<lparr>lastUsed := x\<rparr>) f = isRateLimitedForFamily t a f"
  by (simp add: isRateLimitedForFamily_def isRateLimitedForQuotaKey_def)

lemma current_sticky:
  assumes "getCurrentAccountForFamily s f = Some p"
    and "\<not> isRateLimitedForFamily now (clearExpiredRateLimits now (accounts s ! p)) f"
  shows "getCurrentOrNextForFamily now s f =
     (s\<lparr>accounts := (accounts s)[p := (clearExpiredRateLimits now (accounts s ! p))\<lparr>lastUsed := now\<rparr>]\<rparr>,
      Some p)"
  using assms by (simp add: getCurrentOrNextForFamily_def Let_def)

lemma current_position:
  "getCurrentAccountForFamily s f = Some p \<longleftrightarrow>
     0 \<le> currentAccountIndexByFamily s f \<and> currentAccountIndexByFamily s f < int (length (accounts s)) \<and>
     p = nat (currentAccountIndexByFamily s f)"
  by (auto simp: getCurrentAccountForFamily_def Let_def)

lemma sticky_calls:
  assumes "getCurrentAccountForFamily s f = Some p"
    and "\<forall>t\<in>set nows. \<not> isRateLimitedForFamily t (accounts s ! p) f"
  shows "snd (currentOrNextCalls nows s f) = replicate (length nows) (Some p) \<and>
         cursor (fst (currentOrNextCalls nows s f)) = cursor s \<and>
         currentAccountIndexByFamily (fst (currentOrNextCalls nows s f)) = currentAccountIndexByFamily s"
  using assms
proof (induction nows arbitrary: s)
  case Nil
  then show ?case by simp
next
  case (Cons now nows)
  let ?a = "(clearExpiredRateLimits now (accounts s ! p))\<lparr>lastUsed := now\<rparr>"
  let ?s1 = "s\<lparr>accounts := (accounts s)[p := ?a]\<rparr>"
  have pl: "p < length (accounts s)"
    using Cons.prems(1) by (auto simp: current_position)
  have ok: "\<not> isRateLimitedForFamily now (clearExpiredRateLimits now (accounts s ! p)) f"
    using Cons.prems(2) by simp
  have step: "getCurrentOrNextForFamily now s f = (?s1, Some p)"
    using Cons.prems(1) ok by (rule current_sticky)
  have cur1: "getCurrentAccountForFamily ?s1 f = Some p"
    using Cons.prems(1) by (simp add: current_position)
  have el1: "\<forall>t\<in>set nows. \<not> isRateLimitedForFamily t (accounts ?s1 ! p) f"
    using Cons.prems(2) pl by (auto dest: limited_clear_mono)
  have ih: "snd (currentOrNextCalls nows ?s1 f) = replicate (length nows) (Some p) \<and>
         cursor (fst (currentOrNextCalls nows ?s1 f)) = cursor ?s1 \<and>
         currentAccountIndexByFamily (fst (currentOrNextCalls nows ?s1 f)) = currentAccountIndexByFamily ?s1"
    using cur1 el1 by (rule Cons.IH)
  show ?case using ih by (auto simp: step split: prod.splits)
qed

lemma markedClaude_at0:
  "accounts (viaRef 0 (markRateLimited 100 60000 Claude Antigravity) registry2) ! 0 =
     \<lparr>index = 0, email = Some ''a@example.com'', projectId = ''proj-a'', refreshToken = ''rt-a'',
        accessToken = Some ''at-a'', expiresAt = Some 5000, addedAt = 10, lastUsed = 0,
        rateLimitResetTimes = [QClaude \<mapsto> 60100], lastSwitchReason = None\<rparr>"
  by (simp add: viaRef_def registry2_eq markRateLimited_def getQuotaKey_def)

subsection \<open>Rotation with every account eligible\<close>

lemma available_all:
  assumes "\<forall>a\<in>set accs. \<not> isRateLimitedForFamily now a f"
  shows "available now accs f = [0..<length accs]"
  unfolding available_def using assms by (intro filter_True) simp

lemma next_all_eligible:
  assumes ne: "accounts s \<noteq> []" and c: "0 \<le> cursor s"
    and el: "\<forall>a\<in>set (accounts s). \<not> isRateLimitedForFamily now a f"
  shows "getNextForFamily now s f =
     (s\<lparr>cursor := cursor s + 1,
        accounts := (map (clearExpiredRateLimits now) (accounts s))
          [nat (cursor s mod int (length (accounts s))) :=
             (clearExpiredRateLimits now (accounts s ! nat (cursor s mod int (length (accounts s)))))
               \<lparr>lastUsed := now\<rparr>]\<rparr>,
      Some (nat (cursor s mod int (length (accounts s)))))"
proof -
  let ?accs = "map (clearExpiredRateLimits now) (accounts s)"
  let ?n = "length (accounts s)"
  let ?k = "cursor s mod int ?n"
  have "\<forall>a\<in>set ?accs. \<not> isRateLimitedForFamily now a f" using el by simp
  then have av: "available now ?accs f = [0..<?n]"
    using available_all [of ?accs now f] by simp
  have n0: "0 < int ?n" using ne by simp
  then have k: "0 \<le> ?k" "?k < int ?n" by simp_all
  then have kn: "nat ?k < ?n" by linarith
  have rem: "js_rem (cursor s) (int ?n) = ?k" using c by (rule js_rem_nonneg)
  have nk: "\<not> ?k < 0" using k by linarith
  show ?thesis
    using ne nk kn by (simp add: getNextForFamily_def Let_def av rem)
qed

lemma next_calls_all_eligible:
  assumes "accounts s \<noteq> []" "0 \<le> cursor s"
    and "\<forall>t\<in>set nows. \<forall>a\<in>set (accounts s). \<not> isRateLimitedForFamily t a f"
  shows "snd (nextCalls nows s f) =
           map (\<lambda>i. Some (nat ((cursor s + int i) mod int (length (accounts s))))) [0..<length nows]"
  using assms
proof (induction nows arbitrary: s)
  case Nil
  then show ?case by simp
next
  case (Cons now nows)
  let ?n = "length (accounts s)"
  let ?p = "nat (cursor s mod int ?n)"
  let ?accs = "map (clearExpiredRateLimits now) (accounts s)"
  let ?s1 = "s\<lparr>cursor := cursor s + 1,
        accounts := ?accs[?p := (clearExpiredRateLimits now (accounts s ! ?p))\<lparr>lastUsed := now\<rparr>]\<rparr>"
  have el0: "\<forall>a\<in>set (accounts s). \<not> isRateLimitedForFamily now a f"
    using Cons.prems(3) by simp
  have step: "getNextForFamily now s f = (?s1, Some ?p)"
    using Cons.prems(1,2) el0 by (rule next_all_eligible)
  have ne1: "accounts ?s1 \<noteq> []" using Cons.prems(1) by simp
  have c1: "0 \<le> cursor ?s1" using Cons.prems(2) by simp
  have len1: "length (accounts ?s1) = ?n" by simp
  have el1: "\<forall>t\<in>set nows. \<forall>a\<in>set (accounts ?s1). \<not> isRateLimitedForFamily t a f"
  proof (intro ballI)
    fix t a assume t: "t \<in> set nows" and a: "a \<in> set (accounts ?s1)"
    then obtain i where i: "i < ?n" "a = accounts ?s1 ! i"
      by (auto simp: in_set_conv_nth)
    have orig: "\<not> isRateLimitedForFamily t (accounts s ! i) f"
      using Cons.prems(3) t i(1) by simp
    have "a = clearExpiredRateLimits now (accounts s ! i) \<or>
          a = (clearExpiredRateLimits now (accounts s ! i))\<lparr>lastUsed := now\<rparr>"
      using i by (cases "i = ?p") simp_all
    then show "\<not> isRateLimitedForFamily t a f"
      using orig by (auto dest: limited_clear_mono)
  qed
  have ih: "snd (nextCalls nows ?s1 f) =
      map (\<lambda>i. Some (nat ((cursor ?s1 + int i) mod int (length (accounts ?s1))))) [0..<length nows]"
    using ne1 c1 el1 by (rule Cons.IH)
  have shift: "map (\<lambda>i. Some (nat ((cursor s + int i) mod int ?n))) [0..<length (now # nows)] =
      Some ?p # map (\<lambda>i. Some (nat ((cursor s + 1 + int i) mod int ?n))) [0..<length nows]"
  proof -
    have "[0..<length (now # nows)] = 0 # map Suc [0..<length nows]"
      by (simp add: upt_conv_Cons map_Suc_upt del: upt_Suc)
    then show ?thesis by (simp add: comp_def algebra_simps del: upt_Suc)
  qed
  show ?case unfolding shift using ih
    by (auto simp: step split: prod.splits)
qed

lemma rotation_distinct:
  assumes "0 < n"
  shows "distinct (map (\<lambda>i. Some (nat ((c + int i) mod int n))) [0..<n])"
proof -
  have "inj_on (\<lambda>i. Some (nat ((c + int i) mod int n))) {0..<n}"
  proof (rule inj_onI)
    fix i j assume i: "i \<in> {0..<n}" and j: "j \<in> {0..<n}"
      and eq: "Some (nat ((c + int i) mod int n)) = Some (nat ((c + int j) mod int n))"
    have "0 \<le> (c + int i) mod int n" "0 \<le> (c + int j) mod int n" using assms by simp_all
    then have "(c + int i) mod int n = (c + int j) mod int n" using eq by simp
    then have "int i mod int n = int j mod int n"
      by (simp add: mod_eq_dvd_iff)
    then show "i = j" using i j by (simp add: zmod_int [symmetric])
  qed
  then show ?thesis by (simp add: distinct_map)
qed

subsection \<open>Deleting an expired entry\<close>

lemma clear_eq:
  "clearExpiredRateLimits now a = a\<lparr>rateLimitResetTimes := withoutExpired now (rateLimitResetTimes a)\<rparr>"
proof -
  have "fold (clearExpiredStep now) (objectKeys (rateLimitResetTimes a)) (rateLimitResetTimes a) =
        withoutExpired now (rateLimitResetTimes a)"
  proof
    fix k
    show "fold (clearExpiredStep now) (objectKeys (rateLimitResetTimes a)) (rateLimitResetTimes a) k =
          withoutExpired now (rateLimitResetTimes a) k"
      by (simp add: fold_clearExpiredStep objectKeys_set withoutExpired_def split: option.splits)
  qed
  then show ?thesis by (simp add: clearExpiredRateLimits_def)
qed

lemma withoutExpired_drop:
  assumes "m k = Some r" "r \<le> now"
  shows "withoutExpired now (m(k := None)) = withoutExpired now m"
proof
  fix k' show "withoutExpired now (m(k := None)) k' = withoutExpired now m k'"
    using assms by (simp add: withoutExpired_def)
qed

lemma clear_drop:
  assumes "rateLimitResetTimes a k = Some r" "r \<le> now"
  shows "clearExpiredRateLimits now (dropEntry k a) = clearExpiredRateLimits now a"
  using withoutExpired_drop [of "rateLimitResetTimes a" k r now, OF assms]
  by (simp add: clear_eq dropEntry_def)

lemma limitedKey_drop:
  assumes "rateLimitResetTimes a k = Some r" "r \<le> now"
  shows "isRateLimitedForQuotaKey now (dropEntry k a) k' = isRateLimitedForQuotaKey now a k'"
proof -
  have "isRateLimitedForQuotaKey now (dropEntry k a) k' =
        isRateLimitedForQuotaKey now (clearExpiredRateLimits now (dropEntry k a)) k'"
    by simp
  also have "\<dots> = isRateLimitedForQuotaKey now (clearExpiredRateLimits now a) k'"
    by (simp only: clear_drop [OF assms])
  finally show ?thesis by simp
qed

lemma limited_drop:
  assumes "rateLimitResetTimes a k = Some r" "r \<le> now"
  shows "isRateLimitedForFamily now (dropEntry k a) f = isRateLimitedForFamily now a f"
  by (simp add: isRateLimitedForFamily_def limitedKey_drop [OF assms])

lemma style_drop:
  assumes "rateLimitResetTimes a k = Some r" "r \<le> now"
  shows "getAvailableHeaderStyle now (dropEntry k a) f = getAvailableHeaderStyle now a f"
  by (simp only: getAvailableHeaderStyle_def clear_drop [OF assms])

lemma style_purges: "fst (getAvailableHeaderStyle now a f) = clearExpiredRateLimits now a"
  by (simp add: getAvailableHeaderStyle_def Let_def)

lemma map_update_same:
  assumes "g b = g (xs ! p)"
  shows "map g (xs[p := b]) = map g xs"
proof -
  have "map g (xs[p := b]) = (map g xs)[p := g (xs ! p)]" using assms by (simp add: map_update)
  also have "\<dots> = map g (xs[p := xs ! p])" by (simp only: map_update)
  finally show ?thesis by simp
qed

lemma map_clear_drop:
  assumes "rateLimitResetTimes (accs ! p) k = Some r" "r \<le> now"
  shows "map (clearExpiredRateLimits now) (accs[p := dropEntry k (accs ! p)]) =
         map (clearExpiredRateLimits now) accs"
  by (rule map_update_same) (rule clear_drop [OF assms])

lemma next_drop:
  assumes "rateLimitResetTimes (accounts s ! p) k = Some r" "r \<le> now"
  shows "getNextForFamily now (viaRef p (dropEntry k) s) f = getNextForFamily now s f"
  by (simp add: getNextForFamily_def viaRef_def map_clear_drop [OF assms] Let_def)

lemma switch_drop:
  assumes "rateLimitResetTimes (accounts s ! p) k = Some r" "r \<le> now"
  shows "switchToNext now (viaRef p (dropEntry k) s) f = switchToNext now s f"
  by (simp add: switchToNext_def next_drop [OF assms])

lemma all_drop:
  assumes "rateLimitResetTimes (accounts s ! p) k = Some r" "r \<le> now"
  shows "snd (allAccountsRateLimited now (viaRef p (dropEntry k) s) f) =
         snd (allAccountsRateLimited now s f)"
proof -
  have r: "snd (allAccountsRateLimited now t f) =
           (\<forall>b\<in>set (map (\<lambda>a. isRateLimitedForFamily now a f) (accounts t)). b)" for t
    using everyRateLimited_result [of now f "accounts t"]
    by (auto simp: allAccountsRateLimited_def split: prod.splits)
  have "map (\<lambda>a. isRateLimitedForFamily now a f) ((accounts s)[p := dropEntry k (accounts s ! p)]) =
        map (\<lambda>a. isRateLimitedForFamily now a f) (accounts s)"
    by (rule map_update_same) (rule limited_drop [OF assms])
  then show ?thesis unfolding r by (simp only: viaRef_def) simp
qed

lemma current_viaRef [simp]:
  "getCurrentAccountForFamily (viaRef p g s) f = getCurrentAccountForFamily s f"
  by (simp add: getCurrentAccountForFamily_def viaRef_def)

lemma current_drop:
  assumes e: "rateLimitResetTimes (accounts s ! p) k = Some r" "r \<le> now"
  shows "snd (getCurrentOrNextForFamily now (viaRef p (dropEntry k) s) f) =
         snd (getCurrentOrNextForFamily now s f)"
proof (cases "getCurrentAccountForFamily s f")
  case None
  then show ?thesis
    by (simp add: getCurrentOrNextForFamily_def switch_drop [OF e])
next
  case (Some q)
  then have ql: "q < length (accounts s)" by (auto simp: current_position)
  let ?s' = "viaRef p (dropEntry k) s"
  let ?cur = "clearExpiredRateLimits now (accounts s ! q)"
  let ?this1 = "s\<lparr>accounts := (accounts s)[q := ?cur]\<rparr>"
  have cur': "clearExpiredRateLimits now (accounts ?s' ! q) = ?cur"
    using ql by (cases "q = p") (simp_all add: viaRef_def clear_drop [OF e])
  have sw: "switchToNext now (?s'\<lparr>accounts := (accounts ?s')[q := ?cur]\<rparr>) f = switchToNext now ?this1 f"
  proof (cases "q = p")
    case True
    then show ?thesis by (simp add: viaRef_def)
  next
    case False
    then have e1: "rateLimitResetTimes (accounts ?this1 ! p) k = Some r" using e(1) by simp
    have "?s'\<lparr>accounts := (accounts ?s')[q := ?cur]\<rparr> = viaRef p (dropEntry k) ?this1"
      using False by (simp add: viaRef_def list_update_swap)
    then show ?thesis by (simp only: switch_drop [OF e1 e(2)])
  qed
  have a: "getCurrentOrNextForFamily now ?s' f =
      (if \<not> isRateLimitedForFamily now ?cur f
       then (?s'\<lparr>accounts := (accounts ?s')[q := ?cur\<lparr>lastUsed := now\<rparr>]\<rparr>, Some q)
       else switchToNext now ?this1 f)"
    using Some sw by (simp add: getCurrentOrNextForFamily_def Let_def cur')
  have b: "getCurrentOrNextForFamily now s f =
      (if \<not> isRateLimitedForFamily now ?cur f
       then (s\<lparr>accounts := (accounts s)[q := ?cur\<lparr>lastUsed := now\<rparr>]\<rparr>, Some q)
       else switchToNext now ?this1 f)"
    using Some by (simp add: getCurrentOrNextForFamily_def Let_def)
  show ?thesis unfolding a b by simp
qed

subsection \<open>What each method purges\<close>

lemma withoutExpired_idem [simp]:
  "withoutExpired now (withoutExpired now m) = withoutExpired now m"
  by (rule ext) (simp add: withoutExpired_def split: option.splits)

lemma entries_clear:
  "rateLimitResetTimes (clearExpiredRateLimits now a) = withoutExpired now (rateLimitResetTimes a)"
  by (simp add: clear_eq)

lemma map_entries_clear:
  "map rateLimitResetTimes (map (clearExpiredRateLimits now) accs) =
   map (\<lambda>a. withoutExpired now (rateLimitResetTimes a)) accs"
  by (simp add: clear_eq comp_def)

lemma next_purges:
  "map rateLimitResetTimes (accounts (fst (getNextForFamily now s f))) =
   map (\<lambda>a. withoutExpired now (rateLimitResetTimes a)) (accounts s)"
proof (cases rule: next_cases [of now s f])
  case none
  then show ?thesis by (simp add: entries_clear)
next
  case (some p)
  have "map rateLimitResetTimes ((map (clearExpiredRateLimits now) (accounts s))
          [p := (clearExpiredRateLimits now (accounts s ! p))\<lparr>lastUsed := now\<rparr>]) =
        map rateLimitResetTimes (map (clearExpiredRateLimits now) (accounts s))"
    using some(1) by (intro map_update_same) simp
  then show ?thesis by (simp add: some(3) entries_clear)
qed

lemma switch_purges:
  "map rateLimitResetTimes (accounts (fst (switchToNext now s f))) =
   map (\<lambda>a. withoutExpired now (rateLimitResetTimes a)) (accounts s)"
proof (cases "getNextForFamily now s f")
  case (Pair s2 r)
  have n: "map rateLimitResetTimes (accounts s2) =
           map (\<lambda>a. withoutExpired now (rateLimitResetTimes a)) (accounts s)"
    using next_purges [of now s f] by (simp add: Pair)
  show ?thesis
  proof (cases r)
    case None
    then show ?thesis using n by (simp add: switchToNext_def Pair)
  next
    case (Some q)
    have "map rateLimitResetTimes ((accounts s2)[q := (accounts s2 ! q)\<lparr>lastSwitchReason := Some RateLimit\<rparr>]) =
          map rateLimitResetTimes (accounts s2)"
      by (intro map_update_same) simp
    then show ?thesis using n by (simp add: switchToNext_def Pair Some)
  qed
qed

lemma current_purges_rotation:
  assumes "getCurrentAccountForFamily s f = None \<or>
           (\<exists>p. getCurrentAccountForFamily s f = Some p \<and> isRateLimitedForFamily now (accounts s ! p) f)"
  shows "map rateLimitResetTimes (accounts (fst (getCurrentOrNextForFamily now s f))) =
         map (\<lambda>a. withoutExpired now (rateLimitResetTimes a)) (accounts s)"
proof (cases "getCurrentAccountForFamily s f")
  case None
  then show ?thesis by (simp add: getCurrentOrNextForFamily_def switch_purges)
next
  case (Some p)
  then have lim: "isRateLimitedForFamily now (accounts s ! p) f" using assms by auto
  let ?this1 = "s\<lparr>accounts := (accounts s)[p := clearExpiredRateLimits now (accounts s ! p)]\<rparr>"
  have "map (\<lambda>a. withoutExpired now (rateLimitResetTimes a)) (accounts ?this1) =
        map (\<lambda>a. withoutExpired now (rateLimitResetTimes a)) (accounts s)"
    by (simp, intro map_update_same) (simp add: clear_eq)
  then show ?thesis using lim
    by (simp add: getCurrentOrNextForFamily_def Some Let_def switch_purges del: select_convs)
qed

lemma current_purges_sticky:
  assumes "getCurrentAccountForFamily s f = Some p"
  shows "rateLimitResetTimes (accounts (fst (getCurrentOrNextForFamily now s f)) ! p) =
         withoutExpired now (rateLimitResetTimes (accounts s ! p))"
proof (cases "isRateLimitedForFamily now (accounts s ! p) f")
  case True
  have pl: "p < length (accounts s)" using assms by (auto simp: current_position)
  have rot: "map rateLimitResetTimes (accounts (fst (getCurrentOrNextForFamily now s f))) =
        map (\<lambda>a. withoutExpired now (rateLimitResetTimes a)) (accounts s)"
    by (rule current_purges_rotation) (use assms True in blast)
  then have "length (map rateLimitResetTimes (accounts (fst (getCurrentOrNextForFamily now s f)))) =
        length (map (\<lambda>a. withoutExpired now (rateLimitResetTimes a)) (accounts s))"
    by (rule arg_cong)
  then have len: "length (accounts (fst (getCurrentOrNextForFamily now s f))) = length (accounts s)"
    by simp
  have "map rateLimitResetTimes (accounts (fst (getCurrentOrNextForFamily now s f))) ! p =
        map (\<lambda>a. withoutExpired now (rateLimitResetTimes a)) (accounts s) ! p"
    by (simp only: rot)
  then show ?thesis using pl len by simp
next
  case False
  have pl: "p < length (accounts s)" using assms by (auto simp: current_position)
  have ok: "\<not> isRateLimitedForFamily now (clearExpiredRateLimits now (accounts s ! p)) f"
    using False by simp
  show ?thesis using pl by (simp add: current_sticky [OF assms ok] entries_clear)
qed

lemma every_purges:
  "p < length as \<Longrightarrow>
   fst (everyRateLimited now f as) ! p =
     (if \<forall>q<p. isRateLimitedForFamily now (as ! q) f
      then clearExpiredRateLimits now (as ! p) else as ! p)"
proof (induction as arbitrary: p)
  case Nil
  then show ?case by simp
next
  case (Cons a as)
  show ?case
  proof (cases p)
    case 0
    then show ?thesis by (simp add: Let_def split: prod.splits)
  next
    case (Suc p')
    then have p': "p' < length as" using Cons.prems by simp
    have all: "(\<forall>q<Suc p'. isRateLimitedForFamily now ((a # as) ! q) f) =
               (isRateLimitedForFamily now a f \<and> (\<forall>q<p'. isRateLimitedForFamily now (as ! q) f))"
      by (auto simp: less_Suc_eq_0_disj)
    show ?thesis unfolding Suc all using Cons.IH [OF p']
      by (auto simp: Let_def split: prod.splits)
  qed
qed

subsection \<open>Methods that keep the entries\<close>

lemma add_keeps_entries:
  assumes "i < length (accounts s)"
  shows "rateLimitResetTimes (accounts (fst (addAccount now tokens s)) ! i) =
         rateLimitResetTimes (accounts s ! i)"
proof (cases rule: add_cases [of s tokens])
  case (found p)
  then show ?thesis using assms
    by (cases "i = p") (simp_all add: add_found)
next
  case fresh
  then show ?thesis using assms by (simp add: add_fresh nth_append)
qed

lemma remove_keeps_entries:
  assumes v: "0 \<le> idx" "idx < int (length (accounts s))" and i: "i < length (accounts s) - 1"
  shows "rateLimitResetTimes (accounts (fst (removeAccount idx s)) ! i) =
         rateLimitResetTimes (if i < nat idx then accounts s ! i else accounts s ! Suc i)"
proof -
  define sp where "sp = take (nat idx) (accounts s) @ drop (Suc (nat idx)) (accounts s)"
  note rv = remove_valid [OF v sp_def]
  have nv: "nat idx < length (accounts s)" using v by linarith
  from i have n1: "length (accounts s) \<noteq> 1" by simp
  from i have isp: "i < length sp" by (simp add: rv(2))
  have "sp ! i = (if i < nat idx then accounts s ! i else accounts s ! Suc i)"
    unfolding sp_def using nv i by (rule nth_spliced)
  then show ?thesis using n1 isp by (simp add: rv(1) nth_reindex)
qed

lemma load_keeps_entries:
  assumes "i < length (s_accounts d)"
  shows "rateLimitResetTimes (accounts (loadFromStorage (Some d) s) ! i) =
         (case s_rateLimitResetTimes (s_accounts d ! i) of None \<Rightarrow> Map.empty | Some m \<Rightarrow> m)"
proof -
  from assms have ne: "s_accounts d \<noteq> []" by auto
  show ?thesis using assms
    by (simp add: load_nonempty(1) [OF ne] nth_enumerate_eq hydrate_def)
qed

lemma all_purges:
  assumes "i < length (accounts s)"
  shows "rateLimitResetTimes (accounts (fst (allAccountsRateLimited now s f)) ! i) =
     (if \<forall>j<i. isRateLimitedForFamily now (accounts s ! j) f
      then withoutExpired now (rateLimitResetTimes (accounts s ! i))
      else rateLimitResetTimes (accounts s ! i))"
proof -
  have "accounts (fst (allAccountsRateLimited now s f)) = fst (everyRateLimited now f (accounts s))"
    by (simp add: allAccountsRateLimited_def split: prod.splits)
  then show ?thesis using every_purges [OF assms, of now f] by (auto simp: entries_clear)
qed

section \<open>The claims\<close>

text \<open>
  C1, as stated, fails. The claim reads: with zero accounts
  \<open>allAccountsRateLimited(family)\<close> returns false. The method is
  \<open>accounts.every(...)\<close>, which is true of the empty array.
\<close>

theorem allAccountsRateLimited_empty_counterexample:
  "getAccountCount initial = 0 \<and> snd (allAccountsRateLimited 0 initial Claude) = True"
  by (simp add: getAccountCount_def initial_def allAccountsRateLimited_def)

text \<open>
  C1 (amended). In a registry without accounts \<open>allAccountsRateLimited(family)\<close> returns
  true and leaves the registry as it is, so a caller has to test \<open>getAccountCount() = 0\<close>
  itself.
\<close>

theorem allAccountsRateLimited_empty:
  "getAccountCount this = 0 \<Longrightarrow> allAccountsRateLimited now this family = (this, True)"
  by (simp add: getAccountCount_def allAccountsRateLimited_def)

theorem allAccountsRateLimited_empty_witness:
  "getAccountCount initial = 0 \<and> allAccountsRateLimited 7 initial Gemini = (initial, True)"
  using allAccountsRateLimited_empty [of initial 7 Gemini]
  by (simp add: getAccountCount_def initial_def)

text \<open>
  C3. An account is rate-limited for gemini exactly when both the \<open>gemini-antigravity\<close>
  and the \<open>gemini-cli\<close> entry are present and unexpired (\<open>now < resetTime\<close>);
  \<open>getAvailableHeaderStyle(account, gemini)\<close> returns \<open>antigravity\<close> when the
  \<open>gemini-antigravity\<close> pool is open, otherwise \<open>gemini-cli\<close> when that pool is open,
  otherwise null.
\<close>

theorem gemini_dual_pool:
  "isRateLimitedForFamily now a Gemini =
     ((\<exists>r. rateLimitResetTimes a QGeminiAntigravity = Some r \<and> now < r) \<and>
      (\<exists>r. rateLimitResetTimes a QGeminiCli = Some r \<and> now < r))
   \<and> snd (getAvailableHeaderStyle now a Gemini) =
     (if \<not> (\<exists>r. rateLimitResetTimes a QGeminiAntigravity = Some r \<and> now < r) then Some Antigravity
      else if \<not> (\<exists>r. rateLimitResetTimes a QGeminiCli = Some r \<and> now < r) then Some GeminiCli
      else None)"
proof -
  have key: "\<And>k. (\<exists>r. rateLimitResetTimes a k = Some r \<and> now < r) = isRateLimitedForQuotaKey now a k"
    by (simp add: isRateLimitedForQuotaKey_def split: option.splits)
  show ?thesis
    unfolding key by (simp add: isRateLimitedForFamily_def getAvailableHeaderStyle_def Let_def)
qed

text \<open>
  C2, as stated, fails. The claim reads: after any sequence of registry operations, with a
  positive account count both sticky indices and the rotation cursor lie in
  \<open>[0, accountCount)\<close>. The cursor does not: \<open>getNextForFamily\<close> increments it at every
  successful call and only reads it modulo the number of eligible accounts. One call on a
  registry with one account leaves the cursor at 1.
\<close>

theorem pointers_counterexample:
  "reachable (fst (getNextForFamily 40 registry1 Claude)) \<and>
   getAccountCount (fst (getNextForFamily 40 registry1 Claude)) = 1 \<and>
   \<not> cursor (fst (getNextForFamily 40 registry1 Claude))
       < int (getAccountCount (fst (getNextForFamily 40 registry1 Claude)))"
proof -
  have "reachable registry1" unfolding registry1_def by (intro r_add r_new)
  then have "reachable (fst (getNextForFamily 40 registry1 Claude))" by (rule r_next)
  then show ?thesis by (simp add: next_registry1 getAccountCount_def)
qed

text \<open>
  C2 (amended). In every reachable state the cursor is not negative, both sticky indices are \<open>-1\<close> when
  there is no account, and both lie in \<open>[0, accountCount)\<close> otherwise.
\<close>

theorem pointers_invariant:
  "reachable s \<Longrightarrow>
     0 \<le> cursor s \<and>
     (if getAccountCount s = 0
      then currentAccountIndexByFamily s Claude = - 1 \<and> currentAccountIndexByFamily s Gemini = - 1
      else 0 \<le> currentAccountIndexByFamily s Claude \<and>
           currentAccountIndexByFamily s Claude < int (getAccountCount s) \<and>
           0 \<le> currentAccountIndexByFamily s Gemini \<and>
           currentAccountIndexByFamily s Gemini < int (getAccountCount s))"
proof -
  assume "reachable s"
  then have "registryInv s" by (rule reachable_inv)
  then show ?thesis by (simp add: registryInv_def getAccountCount_def)
qed


theorem pointers_invariant_witness:
  "reachable (fst (getNextForFamily 40 registry1 Gemini)) \<and>
   0 \<le> cursor (fst (getNextForFamily 40 registry1 Gemini)) \<and>
   getAccountCount (fst (getNextForFamily 40 registry1 Gemini)) = 1 \<and>
   currentAccountIndexByFamily (fst (getNextForFamily 40 registry1 Gemini)) Claude = 0 \<and>
   currentAccountIndexByFamily (fst (getNextForFamily 40 registry1 Gemini)) Gemini = 0"
proof -
  have "reachable registry1" unfolding registry1_def by (intro r_add r_new)
  then have r: "reachable (fst (getNextForFamily 40 registry1 Gemini))" by (rule r_next)
  have n: "getAccountCount (fst (getNextForFamily 40 registry1 Gemini)) = 1"
    by (cases rule: next_cases [of 40 registry1 Gemini]) (simp_all add: getAccountCount_def registry1_eq)
  show ?thesis using pointers_invariant [OF r] r n by simp
qed

text \<open>
  C10. \<open>addAccount\<close> on a registry without accounts (a fresh one, or one emptied by
  \<open>removeAccount\<close>, whose sticky indices are \<open>-1\<close>) appends the account at position 0
  and sets both sticky indices to 0, so that the new account is the current account of
  claude and of gemini.
\<close>

theorem addAccount_first:
  "getAccountCount this = 0 \<Longrightarrow>
     snd (addAccount now tokens this) = 0 \<and>
     getAccountCount (fst (addAccount now tokens this)) = 1 \<and>
     currentAccountIndexByFamily (fst (addAccount now tokens this)) Claude = 0 \<and>
     currentAccountIndexByFamily (fst (addAccount now tokens this)) Gemini = 0 \<and>
     getCurrentAccountForFamily (fst (addAccount now tokens this)) Claude = Some (snd (addAccount now tokens this)) \<and>
     getCurrentAccountForFamily (fst (addAccount now tokens this)) Gemini = Some (snd (addAccount now tokens this)) \<and>
     refreshToken (accounts (fst (addAccount now tokens this)) ! 0) = refresh_token tokens \<and>
     email (accounts (fst (addAccount now tokens this)) ! 0) = tok_email tokens"
  by (simp add: getAccountCount_def add_fresh getCurrentAccountForFamily_def)


theorem addAccount_first_witness:
  "getAccountCount (fst (removeAccount 0 registry1)) = 0 \<and>
   currentAccountIndexByFamily (fst (removeAccount 0 registry1)) Claude = - 1 \<and>
   currentAccountIndexByFamily (fst (removeAccount 0 registry1)) Gemini = - 1 \<and>
   currentAccountIndexByFamily (fst (addAccount 50 tokensB (fst (removeAccount 0 registry1)))) Claude = 0 \<and>
   currentAccountIndexByFamily (fst (addAccount 50 tokensB (fst (removeAccount 0 registry1)))) Gemini = 0 \<and>
   getCurrentAccountForFamily (fst (addAccount 50 tokensB (fst (removeAccount 0 registry1)))) Gemini = Some 0 \<and>
   refreshToken (accounts (fst (addAccount 50 tokensB (fst (removeAccount 0 registry1)))) ! 0) = ''rt-b''"
proof -
  have c: "getAccountCount (fst (removeAccount 0 registry1)) = 0"
    by (simp add: emptied_eq getAccountCount_def)
  show ?thesis
    using addAccount_first [OF c, of 50 tokensB] c
    by (simp add: emptied_eq tokensB_def)
qed

text \<open>
  C7. \<open>removeAccount(i)\<close> with \<open>i\<close> outside \<open>[0, accountCount)\<close> returns false and leaves
  the registry unchanged. With a valid \<open>i\<close> it returns true, deletes the account at \<open>i\<close>,
  and every remaining account has its \<open>index\<close> equal to its new position. When the store
  becomes empty the cursor is 0 and both sticky indices are \<open>-1\<close>. Otherwise each sticky
  index that was at or above \<open>i\<close> is decremented (not below 0) and then capped at the new
  last position, the cursor is capped at the new last position, and sticky indices and a
  cursor that were not negative end in \<open>[0, accountCount)\<close> of the new store.
\<close>

theorem removeAccount_spec:
  "(idx < 0 \<or> int (getAccountCount s) \<le> idx \<longrightarrow> removeAccount idx s = (s, False)) \<and>
   (0 \<le> idx \<and> idx < int (getAccountCount s) \<longrightarrow>
      snd (removeAccount idx s) = True \<and>
      getAccountCount (fst (removeAccount idx s)) = getAccountCount s - 1 \<and>
      (\<forall>p < getAccountCount s - 1.
         accounts (fst (removeAccount idx s)) ! p =
           (if p < nat idx then accounts s ! p else accounts s ! Suc p)\<lparr>index := int p\<rparr>) \<and>
      (getAccountCount s = 1 \<longrightarrow>
         cursor (fst (removeAccount idx s)) = 0 \<and>
         (\<forall>f. currentAccountIndexByFamily (fst (removeAccount idx s)) f = - 1)) \<and>
      (getAccountCount s \<noteq> 1 \<longrightarrow>
         cursor (fst (removeAccount idx s)) = min (cursor s) (int (getAccountCount s) - 2) \<and>
         (\<forall>f. currentAccountIndexByFamily (fst (removeAccount idx s)) f =
                min (if currentAccountIndexByFamily s f \<ge> idx
                     then max 0 (currentAccountIndexByFamily s f - 1)
                     else currentAccountIndexByFamily s f)
                    (int (getAccountCount s) - 2)) \<and>
         (0 \<le> cursor s \<longrightarrow>
            0 \<le> cursor (fst (removeAccount idx s)) \<and>
            cursor (fst (removeAccount idx s)) < int (getAccountCount (fst (removeAccount idx s)))) \<and>
         (\<forall>f. 0 \<le> currentAccountIndexByFamily s f \<longrightarrow>
            0 \<le> currentAccountIndexByFamily (fst (removeAccount idx s)) f \<and>
            currentAccountIndexByFamily (fst (removeAccount idx s)) f
              < int (getAccountCount (fst (removeAccount idx s))))))"
proof -
  have invalid: "removeAccount idx s = (s, False)" if "idx < 0 \<or> int (getAccountCount s) \<le> idx"
    using that by (simp add: getAccountCount_def remove_invalid)
  have valid:
     "snd (removeAccount idx s) = True \<and>
      getAccountCount (fst (removeAccount idx s)) = getAccountCount s - 1 \<and>
      (\<forall>p < getAccountCount s - 1.
         accounts (fst (removeAccount idx s)) ! p =
           (if p < nat idx then accounts s ! p else accounts s ! Suc p)\<lparr>index := int p\<rparr>) \<and>
      (getAccountCount s = 1 \<longrightarrow>
         cursor (fst (removeAccount idx s)) = 0 \<and>
         (\<forall>f. currentAccountIndexByFamily (fst (removeAccount idx s)) f = - 1)) \<and>
      (getAccountCount s \<noteq> 1 \<longrightarrow>
         cursor (fst (removeAccount idx s)) = min (cursor s) (int (getAccountCount s) - 2) \<and>
         (\<forall>f. currentAccountIndexByFamily (fst (removeAccount idx s)) f =
                min (if currentAccountIndexByFamily s f \<ge> idx
                     then max 0 (currentAccountIndexByFamily s f - 1)
                     else currentAccountIndexByFamily s f)
                    (int (getAccountCount s) - 2)) \<and>
         (0 \<le> cursor s \<longrightarrow>
            0 \<le> cursor (fst (removeAccount idx s)) \<and>
            cursor (fst (removeAccount idx s)) < int (getAccountCount (fst (removeAccount idx s)))) \<and>
         (\<forall>f. 0 \<le> currentAccountIndexByFamily s f \<longrightarrow>
            0 \<le> currentAccountIndexByFamily (fst (removeAccount idx s)) f \<and>
            currentAccountIndexByFamily (fst (removeAccount idx s)) f
              < int (getAccountCount (fst (removeAccount idx s)))))"
    if range: "0 \<le> idx \<and> idx < int (getAccountCount s)"
  proof -
    from range have v: "0 \<le> idx" "idx < int (length (accounts s))"
      by (simp_all add: getAccountCount_def)
    define sp where "sp = take (nat idx) (accounts s) @ drop (Suc (nat idx)) (accounts s)"
    note rv = remove_valid [OF v sp_def]
    have nv: "nat idx < length (accounts s)" using v by linarith
    have r: "snd (removeAccount idx s) = True"
      by (simp add: rv(1))
    have cnt: "getAccountCount (fst (removeAccount idx s)) = getAccountCount s - 1"
      by (simp add: rv getAccountCount_def)
    have elems: "accounts (fst (removeAccount idx s)) ! p =
           (if p < nat idx then accounts s ! p else accounts s ! Suc p)\<lparr>index := int p\<rparr>"
      if p: "p < getAccountCount s - 1" for p
    proof -
      from p have ps: "p < length sp" by (simp add: rv(2) getAccountCount_def)
      from p have n1: "length (accounts s) \<noteq> 1" by (simp add: getAccountCount_def)
      have "sp ! p = (if p < nat idx then accounts s ! p else accounts s ! Suc p)"
        unfolding sp_def using nv p by (intro nth_spliced) (simp_all add: getAccountCount_def)
      then show ?thesis using n1 ps by (simp add: rv(1) nth_reindex)
    qed
    have last: "cursor (fst (removeAccount idx s)) = 0 \<and>
         (\<forall>f. currentAccountIndexByFamily (fst (removeAccount idx s)) f = - 1)"
      if "getAccountCount s = 1"
      using that by (simp add: rv(1) getAccountCount_def)
    have more: "cursor (fst (removeAccount idx s)) = min (cursor s) (int (getAccountCount s) - 2) \<and>
         (\<forall>f. currentAccountIndexByFamily (fst (removeAccount idx s)) f =
                min (if currentAccountIndexByFamily s f \<ge> idx
                     then max 0 (currentAccountIndexByFamily s f - 1)
                     else currentAccountIndexByFamily s f)
                    (int (getAccountCount s) - 2)) \<and>
         (0 \<le> cursor s \<longrightarrow>
            0 \<le> cursor (fst (removeAccount idx s)) \<and>
            cursor (fst (removeAccount idx s)) < int (getAccountCount (fst (removeAccount idx s)))) \<and>
         (\<forall>f. 0 \<le> currentAccountIndexByFamily s f \<longrightarrow>
            0 \<le> currentAccountIndexByFamily (fst (removeAccount idx s)) f \<and>
            currentAccountIndexByFamily (fst (removeAccount idx s)) f
              < int (getAccountCount (fst (removeAccount idx s))))"
      if n1: "getAccountCount s \<noteq> 1"
    proof -
      from n1 have l1: "length (accounts s) \<noteq> 1" by (simp add: getAccountCount_def)
      then have big: "2 \<le> length (accounts s)" using v by linarith
      have c: "cursor (fst (removeAccount idx s)) = min (cursor s) (int (getAccountCount s) - 2)"
        using l1 by (simp add: rv(1) getAccountCount_def)
      have st: "currentAccountIndexByFamily (fst (removeAccount idx s)) f =
                min (if currentAccountIndexByFamily s f \<ge> idx
                     then max 0 (currentAccountIndexByFamily s f - 1)
                     else currentAccountIndexByFamily s f)
                    (int (getAccountCount s) - 2)" for f
        using l1 by (simp add: rv(1) getAccountCount_def)
      have cnt': "int (getAccountCount (fst (removeAccount idx s))) = int (length (accounts s)) - 1"
        using big cnt by (simp add: getAccountCount_def)
      have cr: "0 \<le> cursor (fst (removeAccount idx s)) \<and>
            cursor (fst (removeAccount idx s)) < int (getAccountCount (fst (removeAccount idx s)))"
        if "0 \<le> cursor s"
        using that big unfolding c cnt' by (auto simp: getAccountCount_def)
      have sr: "0 \<le> currentAccountIndexByFamily (fst (removeAccount idx s)) f \<and>
            currentAccountIndexByFamily (fst (removeAccount idx s)) f
              < int (getAccountCount (fst (removeAccount idx s)))"
        if "0 \<le> currentAccountIndexByFamily s f" for f
        using that big v unfolding cnt' st by (auto simp: getAccountCount_def)
      show ?thesis using c st cr sr by blast
    qed
    show ?thesis using r cnt elems last more by blast
  qed
  show ?thesis using invalid valid by blast
qed

theorem removeAccount_spec_witness:
  "removeAccount 5 registry3 = (registry3, False) \<and>
   removeAccount (- 1) registry3 = (registry3, False) \<and>
   snd (removeAccount 0 registry3) = True \<and>
   getAccountCount (fst (removeAccount 0 registry3)) = 2 \<and>
   refreshToken (accounts (fst (removeAccount 0 registry3)) ! 0) = ''rt-b'' \<and>
   index (accounts (fst (removeAccount 0 registry3)) ! 0) = 0 \<and>
   refreshToken (accounts (fst (removeAccount 0 registry3)) ! 1) = ''rt-c'' \<and>
   index (accounts (fst (removeAccount 0 registry3)) ! 1) = 1 \<and>
   cursor (fst (removeAccount 0 registry3)) = 0 \<and>
   currentAccountIndexByFamily (fst (removeAccount 0 registry3)) Claude = 0 \<and>
   currentAccountIndexByFamily (fst (removeAccount 0 registry3)) Gemini = 0"
proof -
  have n: "getAccountCount registry3 = 3" by (simp add: getAccountCount_def registry3_eq)
  have a: "accounts registry3 ! Suc 0 = \<lparr>index = 1, email = Some ''b@example.com'', projectId = ''proj-b'', refreshToken = ''rt-b'',
        accessToken = Some ''at-b'', expiresAt = Some 6000, addedAt = 20, lastUsed = 0,
        rateLimitResetTimes = Map.empty, lastSwitchReason = None\<rparr>"
    "accounts registry3 ! Suc (Suc 0) = \<lparr>index = 2, email = None, projectId = ''proj-c'', refreshToken = ''rt-c'',
        accessToken = None, expiresAt = None, addedAt = 30, lastUsed = 0,
        rateLimitResetTimes = Map.empty, lastSwitchReason = None\<rparr>"
    "cursor registry3 = 0" "currentAccountIndexByFamily registry3 = (\<lambda>_. 0)"
    by (simp_all add: registry3_eq)
  have p: "(0::nat) < 3 - 1" "(1::nat) < 3 - 1" by simp_all
  show ?thesis
    using removeAccount_spec [of 5 registry3] removeAccount_spec [of "- 1" registry3]
      removeAccount_spec [of 0 registry3] p
    unfolding n by (simp add: a)
qed

text \<open>
  C8, as stated, fails. The claim reads: \<open>addAccount(tokens)\<close> whose email matches an
  existing account updates that account and leaves the count unchanged. The email is only
  compared when \<open>tokens.email\<close> is truthy: with the empty string as email on both sides
  (and different refresh tokens) a second account is appended.
\<close>

theorem addAccount_blank_email_counterexample:
  "email (accounts (fst (addAccount 10 tokensBlank1 initial)) ! 0) = tok_email tokensBlank2 \<and>
   getAccountCount (fst (addAccount 10 tokensBlank1 initial)) = 1 \<and>
   getAccountCount (fst (addAccount 20 tokensBlank2 (fst (addAccount 10 tokensBlank1 initial)))) = 2"
proof -
  have "\<forall>p<length (accounts (fst (addAccount 10 tokensBlank1 initial))).
          \<not> sameCredential tokensBlank2 (accounts (fst (addAccount 10 tokensBlank1 initial)) ! p)"
    by (simp add: blank1_eq sameCredential_def tokensBlank2_def truthy_def)
  then have "addAccount 20 tokensBlank2 (fst (addAccount 10 tokensBlank1 initial)) =
     ((fst (addAccount 10 tokensBlank1 initial))\<lparr>accounts := accounts (fst (addAccount 10 tokensBlank1 initial)) @
          [\<lparr>index = int (length (accounts (fst (addAccount 10 tokensBlank1 initial)))), email = tok_email tokensBlank2,
            projectId = project_id tokensBlank2, refreshToken = refresh_token tokensBlank2,
            accessToken = access_token tokensBlank2, expiresAt = expires_at tokensBlank2,
            addedAt = 20, lastUsed = 0, rateLimitResetTimes = Map.empty,
            lastSwitchReason = None\<rparr>],
       currentAccountIndexByFamily :=
         (if accounts (fst (addAccount 10 tokensBlank1 initial)) = []
          then ((currentAccountIndexByFamily (fst (addAccount 10 tokensBlank1 initial)))(Claude := 0))(Gemini := 0)
          else currentAccountIndexByFamily (fst (addAccount 10 tokensBlank1 initial)))\<rparr>,
      length (accounts (fst (addAccount 10 tokensBlank1 initial))))"
    by (rule add_fresh)
  then show ?thesis
    by (simp add: getAccountCount_def) (simp add: blank1_eq tokensBlank2_def)
qed

text \<open>
  C8 (amended). A credential set matches an account when its email is present, not empty
  and equal to the account's email, or when the refresh tokens are equal. If some account
  matches, \<open>addAccount\<close> overwrites \<open>refreshToken\<close>, \<open>projectId\<close>, \<open>accessToken\<close>,
  \<open>expiresAt\<close> and \<open>email\<close> of the first such account, returns it and leaves the count
  as it is. Otherwise it appends an account with \<open>index\<close> equal to the previous length,
  \<open>lastUsed = 0\<close> and no rate-limit entry, and sets both sticky indices to 0 when the store
  was empty.
\<close>

theorem addAccount_spec:
  "sameCredential tokens a =
     ((tok_email tokens \<noteq> None \<and> tok_email tokens \<noteq> Some [] \<and> email a = tok_email tokens) \<or>
      refreshToken a = refresh_token tokens) \<and>
   ((\<exists>p<getAccountCount s. sameCredential tokens (accounts s ! p)) \<longrightarrow>
      snd (addAccount now tokens s) < getAccountCount s \<and>
      sameCredential tokens (accounts s ! snd (addAccount now tokens s)) \<and>
      (\<forall>q<snd (addAccount now tokens s). \<not> sameCredential tokens (accounts s ! q)) \<and>
      fst (addAccount now tokens s) =
        s\<lparr>accounts := (accounts s)[snd (addAccount now tokens s) :=
              (accounts s ! snd (addAccount now tokens s))
                \<lparr>refreshToken := refresh_token tokens, projectId := project_id tokens,
                 accessToken := access_token tokens, expiresAt := expires_at tokens,
                 email := tok_email tokens\<rparr>]\<rparr> \<and>
      getAccountCount (fst (addAccount now tokens s)) = getAccountCount s) \<and>
   ((\<forall>p<getAccountCount s. \<not> sameCredential tokens (accounts s ! p)) \<longrightarrow>
      snd (addAccount now tokens s) = getAccountCount s \<and>
      accounts (fst (addAccount now tokens s)) = accounts s @
          [\<lparr>index = int (getAccountCount s), email = tok_email tokens,
            projectId = project_id tokens, refreshToken = refresh_token tokens,
            accessToken = access_token tokens, expiresAt = expires_at tokens,
            addedAt = now, lastUsed = 0, rateLimitResetTimes = Map.empty,
            lastSwitchReason = None\<rparr>] \<and>
      cursor (fst (addAccount now tokens s)) = cursor s \<and>
      (\<forall>f. currentAccountIndexByFamily (fst (addAccount now tokens s)) f =
            (if getAccountCount s = 0 then 0 else currentAccountIndexByFamily s f)))"
proof -
  have m: "sameCredential tokens a =
     ((tok_email tokens \<noteq> None \<and> tok_email tokens \<noteq> Some [] \<and> email a = tok_email tokens) \<or>
      refreshToken a = refresh_token tokens)"
    by (auto simp: sameCredential_def truthy_def split: option.splits)
  show ?thesis
  proof (cases rule: add_cases [of s tokens])
    case (found p)
    have "addAccount now tokens s =
      (s\<lparr>accounts := (accounts s)[p := (accounts s ! p)
        \<lparr>refreshToken := refresh_token tokens, projectId := project_id tokens,
         accessToken := access_token tokens, expiresAt := expires_at tokens,
         email := tok_email tokens\<rparr>]\<rparr>, p)"
      using found by (rule add_found)
    then show ?thesis using found m by (auto simp: getAccountCount_def)
  next
    case fresh
    have "addAccount now tokens s =
    (s\<lparr>accounts := accounts s @
          [\<lparr>index = int (length (accounts s)), email = tok_email tokens,
            projectId = project_id tokens, refreshToken = refresh_token tokens,
            accessToken = access_token tokens, expiresAt = expires_at tokens,
            addedAt = now, lastUsed = 0, rateLimitResetTimes = Map.empty,
            lastSwitchReason = None\<rparr>],
       currentAccountIndexByFamily :=
         (if accounts s = []
          then ((currentAccountIndexByFamily s)(Claude := 0))(Gemini := 0)
          else currentAccountIndexByFamily s)\<rparr>, length (accounts s))"
      using fresh by (rule add_fresh)
    moreover have "((currentAccountIndexByFamily s)(Claude := 0))(Gemini := 0) = (\<lambda>_. 0)"
    proof
      fix f show "((currentAccountIndexByFamily s)(Claude := 0, Gemini := 0)) f = 0"
        by (cases f) simp_all
    qed
    ultimately show ?thesis using fresh m by (auto simp: getAccountCount_def)
  qed
qed

theorem addAccount_spec_witness:
  "sameCredential tokensA (accounts registry2 ! 0) \<and>
   snd (addAccount 99 tokensA registry2) = 0 \<and>
   getAccountCount (fst (addAccount 99 tokensA registry2)) = 2 \<and>
   \<not> sameCredential tokensC (accounts registry2 ! 0) \<and>
   \<not> sameCredential tokensC (accounts registry2 ! 1) \<and>
   snd (addAccount 99 tokensC registry2) = 2 \<and>
   length (accounts (fst (addAccount 99 tokensC registry2))) = 3 \<and>
   lastUsed (accounts (fst (addAccount 99 tokensC registry2)) ! 2) = 0 \<and>
   index (accounts (fst (addAccount 99 tokensC registry2)) ! 2) = 2"
proof -
  have n: "getAccountCount registry2 = 2" by (simp add: getAccountCount_def registry2_eq)
  have a: "sameCredential tokensA (accounts registry2 ! 0)"
    by (simp add: registry2_eq sameCredential_def tokensA_def truthy_def)
  have c: "\<not> sameCredential tokensC (accounts registry2 ! 0)" "\<not> sameCredential tokensC (accounts registry2 ! 1)"
    by (simp_all add: registry2_eq sameCredential_def tokensC_def truthy_def)
  have ex: "\<exists>p<getAccountCount registry2. sameCredential tokensA (accounts registry2 ! p)"
    unfolding n using a by (intro exI [of _ 0]) simp
  have al: "\<forall>p<getAccountCount registry2. \<not> sameCredential tokensC (accounts registry2 ! p)"
    unfolding n using c by (auto simp: less_Suc_eq numeral_2_eq_2)
  have l: "length (accounts registry2) = 2" by (simp add: registry2_eq)
  from addAccount_spec [of tokensA "accounts registry2 ! 0" registry2 99] ex
  have f: "snd (addAccount 99 tokensA registry2) < 2 \<and>
      (\<forall>q<snd (addAccount 99 tokensA registry2). \<not> sameCredential tokensA (accounts registry2 ! q)) \<and>
      getAccountCount (fst (addAccount 99 tokensA registry2)) = getAccountCount registry2"
    unfolding n by blast
  then have f0: "snd (addAccount 99 tokensA registry2) = 0" using a by (cases "snd (addAccount 99 tokensA registry2)") auto
  show ?thesis
    using addAccount_spec [of tokensC "accounts registry2 ! 0" registry2 99] al a c f f0
    by (simp add: n l nth_append)
qed

text \<open>
  C9. \<open>loadFromStorage(toStorageData())\<close> gives a registry with the same number of
  accounts, in the same order, with the same \<open>email\<close>, \<open>projectId\<close>, \<open>refreshToken\<close>,
  \<open>addedAt\<close>, \<open>lastUsed\<close> and \<open>rateLimitResetTimes\<close> (an empty map comes back as an empty
  map) and with \<open>index\<close> equal to the position. The sticky index of each family comes back
  as \<open>max(0, sticky) mod accountCount\<close> (\<open>-1\<close> without accounts), which in every reachable
  state is the sticky index itself.
\<close>

theorem storage_roundtrip:
  "getAccountCount (loadFromStorage (Some (toStorageData s)) other) = getAccountCount s \<and>
   (\<forall>p<getAccountCount s.
      email (accounts (loadFromStorage (Some (toStorageData s)) other) ! p) = email (accounts s ! p) \<and>
      projectId (accounts (loadFromStorage (Some (toStorageData s)) other) ! p) = projectId (accounts s ! p) \<and>
      refreshToken (accounts (loadFromStorage (Some (toStorageData s)) other) ! p) = refreshToken (accounts s ! p) \<and>
      addedAt (accounts (loadFromStorage (Some (toStorageData s)) other) ! p) = addedAt (accounts s ! p) \<and>
      lastUsed (accounts (loadFromStorage (Some (toStorageData s)) other) ! p) = lastUsed (accounts s ! p) \<and>
      rateLimitResetTimes (accounts (loadFromStorage (Some (toStorageData s)) other) ! p) =
        rateLimitResetTimes (accounts s ! p) \<and>
      index (accounts (loadFromStorage (Some (toStorageData s)) other) ! p) = int p) \<and>
   (\<forall>f. currentAccountIndexByFamily (loadFromStorage (Some (toStorageData s)) other) f =
        (if getAccountCount s = 0 then - 1
         else max 0 (currentAccountIndexByFamily s f) mod int (getAccountCount s))) \<and>
   (reachable s \<longrightarrow>
      (\<forall>f. currentAccountIndexByFamily (loadFromStorage (Some (toStorageData s)) other) f =
           currentAccountIndexByFamily s f))"
proof -
  let ?s' = "loadFromStorage (Some (toStorageData s)) other"
  have cnt: "getAccountCount ?s' = getAccountCount s"
    by (simp add: getAccountCount_def roundtrip_accounts)
  have el: "accounts ?s' ! p = hydrate (p, dehydrate (accounts s ! p))" if "p < getAccountCount s" for p
    using that by (simp add: roundtrip_accounts getAccountCount_def nth_enumerate_eq)
  have st: "currentAccountIndexByFamily ?s' f =
        (if getAccountCount s = 0 then - 1
         else max 0 (currentAccountIndexByFamily s f) mod int (getAccountCount s))" for f
    by (simp add: roundtrip_sticky getAccountCount_def)
  have same: "currentAccountIndexByFamily ?s' f = currentAccountIndexByFamily s f" if "reachable s" for f
  proof -
    from that have "registryInv s" by (rule reachable_inv)
    then show ?thesis unfolding st by (cases f) (auto simp: registryInv_def getAccountCount_def)
  qed
  show ?thesis using cnt st same by (simp add: el hydrate_dehydrate)
qed

theorem storage_roundtrip_witness:
  "reachable (viaRef 0 (markRateLimited 100 60000 Gemini Antigravity) registry2) \<and>
   getAccountCount (loadFromStorage (Some (toStorageData
      (viaRef 0 (markRateLimited 100 60000 Gemini Antigravity) registry2))) initial) = 2 \<and>
   rateLimitResetTimes (accounts (loadFromStorage (Some (toStorageData
      (viaRef 0 (markRateLimited 100 60000 Gemini Antigravity) registry2))) initial) ! 0) QGeminiAntigravity
     = Some 60100 \<and>
   refreshToken (accounts (loadFromStorage (Some (toStorageData
      (viaRef 0 (markRateLimited 100 60000 Gemini Antigravity) registry2))) initial) ! 0) = ''rt-a'' \<and>
   currentAccountIndexByFamily (loadFromStorage (Some (toStorageData
      (viaRef 0 (markRateLimited 100 60000 Gemini Antigravity) registry2))) initial) Gemini = 0"
proof -
  have "reachable registry1" unfolding registry1_def by (intro r_add r_new)
  then have "reachable registry2" unfolding registry2_def by (rule r_add)
  then have r: "reachable (viaRef 0 (markRateLimited 100 60000 Gemini Antigravity) registry2)"
    by (rule r_mark)
  have n: "getAccountCount (viaRef 0 (markRateLimited 100 60000 Gemini Antigravity) registry2) = 2"
    by (simp add: getAccountCount_def viaRef_def registry2_eq)
  have c: "currentAccountIndexByFamily (viaRef 0 (markRateLimited 100 60000 Gemini Antigravity) registry2) Gemini = 0"
    by (simp add: viaRef_def registry2_eq)
  show ?thesis
    using storage_roundtrip [of "viaRef 0 (markRateLimited 100 60000 Gemini Antigravity) registry2" initial] r
    unfolding n by (simp add: marked2_at0 c)
qed

text \<open>
  C4. If the family has a sticky account and, after lazy expiry, it is not rate-limited
  for the family, then \<open>getCurrentOrNextForFamily(family)\<close> returns that account, and the
  registry changes only at this account: its expired entries are gone and \<open>lastUsed\<close> is
  the clock value; cursor and sticky indices are as before. Further calls, at clock values
  at which the account is still not rate-limited, all return the same account, again with
  the cursor and the sticky indices unchanged.
\<close>

theorem sticky_account:
  assumes "getCurrentAccountForFamily s f = Some p"
    and "\<not> isRateLimitedForFamily now (clearExpiredRateLimits now (accounts s ! p)) f"
    and "\<forall>t\<in>set later. \<not> isRateLimitedForFamily t (clearExpiredRateLimits t (accounts s ! p)) f"
  shows "getCurrentOrNextForFamily now s f =
     (s\<lparr>accounts := (accounts s)[p := (clearExpiredRateLimits now (accounts s ! p))\<lparr>lastUsed := now\<rparr>]\<rparr>,
      Some p) \<and>
     snd (currentOrNextCalls (now # later) s f) = replicate (Suc (length later)) (Some p) \<and>
     cursor (fst (currentOrNextCalls (now # later) s f)) = cursor s \<and>
     currentAccountIndexByFamily (fst (currentOrNextCalls (now # later) s f)) =
       currentAccountIndexByFamily s"
proof -
  have "\<forall>t\<in>set (now # later). \<not> isRateLimitedForFamily t (accounts s ! p) f"
    using assms(2,3) by simp
  then have "snd (currentOrNextCalls (now # later) s f) = replicate (length (now # later)) (Some p) \<and>
         cursor (fst (currentOrNextCalls (now # later) s f)) = cursor s \<and>
         currentAccountIndexByFamily (fst (currentOrNextCalls (now # later) s f)) = currentAccountIndexByFamily s"
    using assms(1) by (intro sticky_calls)
  then show ?thesis using current_sticky [OF assms(1,2)] by simp
qed

theorem sticky_account_witness:
  "getCurrentAccountForFamily (viaRef 0 (markRateLimited 100 60000 Claude Antigravity) registry2) Claude = Some 0 \<and>
   rateLimitResetTimes (accounts (viaRef 0 (markRateLimited 100 60000 Claude Antigravity) registry2) ! 0) QClaude
     = Some 60100 \<and>
   snd (getCurrentOrNextForFamily 70000 (viaRef 0 (markRateLimited 100 60000 Claude Antigravity) registry2) Claude)
     = Some 0 \<and>
   snd (currentOrNextCalls [70000, 70001, 80000]
          (viaRef 0 (markRateLimited 100 60000 Claude Antigravity) registry2) Claude)
     = [Some 0, Some 0, Some 0] \<and>
   cursor (fst (currentOrNextCalls [70000, 70001, 80000]
          (viaRef 0 (markRateLimited 100 60000 Claude Antigravity) registry2) Claude)) = 0"
proof -
  let ?s = "viaRef 0 (markRateLimited 100 60000 Claude Antigravity) registry2"
  have cur: "getCurrentAccountForFamily ?s Claude = Some 0"
    by (simp add: getCurrentAccountForFamily_def viaRef_def registry2_eq)
  have now: "\<not> isRateLimitedForFamily 70000 (clearExpiredRateLimits 70000 (accounts ?s ! 0)) Claude"
    by (simp add: markedClaude_at0 clear_lookup isRateLimitedForFamily_def isRateLimitedForQuotaKey_def)
  have later: "\<forall>t\<in>set [70001, 80000].
      \<not> isRateLimitedForFamily t (clearExpiredRateLimits t (accounts ?s ! 0)) Claude"
    by (simp add: markedClaude_at0 clear_lookup isRateLimitedForFamily_def isRateLimitedForQuotaKey_def)
  have c: "cursor ?s = 0" by (simp add: viaRef_def registry2_eq)
  show ?thesis
    using sticky_account [OF cur now later] cur c
    by (simp add: markedClaude_at0 del: currentOrNextCalls.simps)
qed

text \<open>
  C5. In a registry with \<open>N \<ge> 1\<close> accounts and a cursor that is not negative (as it is in
  every reachable state), \<open>N\<close> consecutive calls of \<open>getNextForFamily(F)\<close>, at clock values at
  which no account is rate-limited for \<open>F\<close>, return \<open>N\<close> different accounts: each of the
  \<open>N\<close> accounts exactly once.
\<close>

theorem round_robin:
  assumes "1 \<le> getAccountCount s" and "0 \<le> cursor s"
    and "length nows = getAccountCount s"
    and "\<forall>t\<in>set nows. \<forall>a\<in>set (accounts s).
           \<not> isRateLimitedForFamily t (clearExpiredRateLimits t a) f"
  shows "length (snd (nextCalls nows s f)) = getAccountCount s \<and>
         distinct (snd (nextCalls nows s f)) \<and>
         set (snd (nextCalls nows s f)) = Some ` {0..<getAccountCount s}"
proof -
  let ?n = "length (accounts s)"
  define rs where "rs = map (\<lambda>i. Some (nat ((cursor s + int i) mod int ?n))) [0..<?n]"
  have ne: "accounts s \<noteq> []" and n0: "0 < ?n"
    using assms(1) by (auto simp: getAccountCount_def)
  have el: "\<forall>t\<in>set nows. \<forall>a\<in>set (accounts s). \<not> isRateLimitedForFamily t a f"
    using assms(4) by simp
  have res: "snd (nextCalls nows s f) = rs"
    using next_calls_all_eligible [OF ne assms(2) el] assms(3)
    by (simp add: getAccountCount_def rs_def)
  have len: "length rs = ?n" by (simp add: rs_def)
  have d: "distinct rs" unfolding rs_def using n0 by (rule rotation_distinct)
  have sub: "set rs \<subseteq> Some ` {0..<?n}"
  proof
    fix x assume "x \<in> set rs"
    then obtain i where x: "x = Some (nat ((cursor s + int i) mod int ?n))"
      by (auto simp: rs_def)
    have "0 \<le> (cursor s + int i) mod int ?n" "(cursor s + int i) mod int ?n < int ?n"
      using n0 by simp_all
    then have "nat ((cursor s + int i) mod int ?n) < ?n" by linarith
    then show "x \<in> Some ` {0..<?n}" using x by simp
  qed
  have "card (set rs) = length rs" using d by (rule distinct_card)
  then have "card (set rs) = ?n" using len by simp
  moreover have "card (Some ` {0..<?n}) = ?n" by (simp add: card_image)
  ultimately have "set rs = Some ` {0..<?n}"
    using sub by (intro card_subset_eq) simp_all
  then show ?thesis using d len by (simp add: res getAccountCount_def)
qed

theorem round_robin_witness:
  "getAccountCount (registry3\<lparr>cursor := 5\<rparr>) = 3 \<and>
   length (snd (nextCalls [100, 200, 300] (registry3\<lparr>cursor := 5\<rparr>) Gemini)) = 3 \<and>
   distinct (snd (nextCalls [100, 200, 300] (registry3\<lparr>cursor := 5\<rparr>) Gemini)) \<and>
   set (snd (nextCalls [100, 200, 300] (registry3\<lparr>cursor := 5\<rparr>) Gemini)) = Some ` {0..<3}"
proof -
  let ?s = "registry3\<lparr>cursor := 5\<rparr>"
  have n: "getAccountCount ?s = 3" by (simp add: getAccountCount_def registry3_eq)
  have h1: "1 \<le> getAccountCount ?s" by (simp add: n)
  have h2: "0 \<le> cursor ?s" by simp
  have h3: "length [100, 200, 300 :: int] = getAccountCount ?s" by (simp add: n)
  have h4: "\<forall>t\<in>set [100, 200, 300]. \<forall>a\<in>set (accounts ?s).
           \<not> isRateLimitedForFamily t (clearExpiredRateLimits t a) Gemini"
    by (simp add: registry3_eq isRateLimitedForFamily_def isRateLimitedForQuotaKey_def clear_lookup)
  show ?thesis using round_robin [OF h1 h2 h3 h4] unfolding n by simp
qed

text \<open>
  C6. An entry with \<open>resetTime \<le> now\<close> counts as absent: deleting it changes the result of
  no eligibility check (\<open>isRateLimitedForQuotaKey\<close>, \<open>isRateLimitedForFamily\<close>,
  \<open>getAvailableHeaderStyle\<close>, \<open>getNextForFamily\<close>, \<open>getCurrentOrNextForFamily\<close>,
  \<open>allAccountsRateLimited\<close>). \<open>clearExpiredRateLimits\<close> leaves exactly the map without its
  expired entries, and so does every check for the accounts it looks at:
  \<open>getAvailableHeaderStyle\<close> for its account, \<open>getNextForFamily\<close> for all accounts,
  \<open>getCurrentOrNextForFamily\<close> for the sticky account and, when it rotates, for all
  accounts, \<open>allAccountsRateLimited\<close> for the accounts up to the first one that is not
  rate-limited (where \<open>every\<close> stops), the maps behind it staying as they are. Nothing
  else deletes an entry: \<open>addAccount\<close> and \<open>removeAccount\<close> keep the maps of the accounts
  that stay, \<open>loadFromStorage\<close> takes the maps as stored, \<open>markRateLimited\<close> sets one
  entry and \<open>updateAccountTokens\<close> leaves the map alone.
\<close>

theorem lazy_expiry:
  "(rateLimitResetTimes a k = Some r \<and> r \<le> now \<longrightarrow>
      isRateLimitedForQuotaKey now (dropEntry k a) k' = isRateLimitedForQuotaKey now a k' \<and>
      isRateLimitedForFamily now (dropEntry k a) f = isRateLimitedForFamily now a f \<and>
      snd (getAvailableHeaderStyle now (dropEntry k a) f) = snd (getAvailableHeaderStyle now a f)) \<and>
   (rateLimitResetTimes (accounts s ! p) k = Some r \<and> r \<le> now \<longrightarrow>
      snd (getNextForFamily now (viaRef p (dropEntry k) s) f) = snd (getNextForFamily now s f) \<and>
      snd (getCurrentOrNextForFamily now (viaRef p (dropEntry k) s) f) =
        snd (getCurrentOrNextForFamily now s f) \<and>
      snd (allAccountsRateLimited now (viaRef p (dropEntry k) s) f) =
        snd (allAccountsRateLimited now s f)) \<and>
   rateLimitResetTimes (clearExpiredRateLimits now a) = withoutExpired now (rateLimitResetTimes a) \<and>
   rateLimitResetTimes (fst (getAvailableHeaderStyle now a f)) =
     withoutExpired now (rateLimitResetTimes a) \<and>
   map rateLimitResetTimes (accounts (fst (getNextForFamily now s f))) =
     map (\<lambda>b. withoutExpired now (rateLimitResetTimes b)) (accounts s) \<and>
   (getCurrentAccountForFamily s f = Some q \<longrightarrow>
      rateLimitResetTimes (accounts (fst (getCurrentOrNextForFamily now s f)) ! q) =
        withoutExpired now (rateLimitResetTimes (accounts s ! q))) \<and>
   (getCurrentAccountForFamily s f = None \<or>
    (\<exists>c. getCurrentAccountForFamily s f = Some c \<and> isRateLimitedForFamily now (accounts s ! c) f) \<longrightarrow>
      map rateLimitResetTimes (accounts (fst (getCurrentOrNextForFamily now s f))) =
        map (\<lambda>b. withoutExpired now (rateLimitResetTimes b)) (accounts s)) \<and>
   (\<forall>i<getAccountCount s.
      rateLimitResetTimes (accounts (fst (allAccountsRateLimited now s f)) ! i) =
        (if \<forall>j<i. isRateLimitedForFamily now (accounts s ! j) f
         then withoutExpired now (rateLimitResetTimes (accounts s ! i))
         else rateLimitResetTimes (accounts s ! i))) \<and>
   (\<forall>i<getAccountCount s.
      rateLimitResetTimes (accounts (fst (addAccount now tokens s)) ! i) =
        rateLimitResetTimes (accounts s ! i)) \<and>
   (0 \<le> idx \<and> idx < int (getAccountCount s) \<longrightarrow>
      (\<forall>i<getAccountCount s - 1.
         rateLimitResetTimes (accounts (fst (removeAccount idx s)) ! i) =
           rateLimitResetTimes (if i < nat idx then accounts s ! i else accounts s ! Suc i))) \<and>
   (\<forall>i<length (s_accounts d).
      rateLimitResetTimes (accounts (loadFromStorage (Some d) s) ! i) =
        (case s_rateLimitResetTimes (s_accounts d ! i) of None \<Rightarrow> Map.empty | Some m \<Rightarrow> m)) \<and>
   rateLimitResetTimes (markRateLimited now retry f style a) =
     (rateLimitResetTimes a)(getQuotaKey f style \<mapsto> now + retry) \<and>
   rateLimitResetTimes (updateAccountTokens token expires a) = rateLimitResetTimes a"
proof -
  have absent_account: "isRateLimitedForQuotaKey now (dropEntry k a) k' = isRateLimitedForQuotaKey now a k' \<and>
      isRateLimitedForFamily now (dropEntry k a) f = isRateLimitedForFamily now a f \<and>
      snd (getAvailableHeaderStyle now (dropEntry k a) f) = snd (getAvailableHeaderStyle now a f)"
    if "rateLimitResetTimes a k = Some r \<and> r \<le> now"
    using that by (simp add: limitedKey_drop limited_drop style_drop)
  have absent_registry: "snd (getNextForFamily now (viaRef p (dropEntry k) s) f) = snd (getNextForFamily now s f) \<and>
      snd (getCurrentOrNextForFamily now (viaRef p (dropEntry k) s) f) =
        snd (getCurrentOrNextForFamily now s f) \<and>
      snd (allAccountsRateLimited now (viaRef p (dropEntry k) s) f) =
        snd (allAccountsRateLimited now s f)"
    if "rateLimitResetTimes (accounts s ! p) k = Some r \<and> r \<le> now"
    using that by (simp add: next_drop current_drop all_drop)
  have style: "rateLimitResetTimes (fst (getAvailableHeaderStyle now a f)) =
     withoutExpired now (rateLimitResetTimes a)"
    by (simp add: style_purges entries_clear)
  have sticky: "rateLimitResetTimes (accounts (fst (getCurrentOrNextForFamily now s f)) ! q) =
        withoutExpired now (rateLimitResetTimes (accounts s ! q))"
    if "getCurrentAccountForFamily s f = Some q"
    using that by (rule current_purges_sticky)
  have rotation: "map rateLimitResetTimes (accounts (fst (getCurrentOrNextForFamily now s f))) =
        map (\<lambda>b. withoutExpired now (rateLimitResetTimes b)) (accounts s)"
    if "getCurrentAccountForFamily s f = None \<or>
    (\<exists>c. getCurrentAccountForFamily s f = Some c \<and> isRateLimitedForFamily now (accounts s ! c) f)"
    using that by (rule current_purges_rotation)
  have every: "\<forall>i<getAccountCount s.
      rateLimitResetTimes (accounts (fst (allAccountsRateLimited now s f)) ! i) =
        (if \<forall>j<i. isRateLimitedForFamily now (accounts s ! j) f
         then withoutExpired now (rateLimitResetTimes (accounts s ! i))
         else rateLimitResetTimes (accounts s ! i))"
    by (simp add: getAccountCount_def all_purges)
  have add: "\<forall>i<getAccountCount s.
      rateLimitResetTimes (accounts (fst (addAccount now tokens s)) ! i) =
        rateLimitResetTimes (accounts s ! i)"
    by (simp add: getAccountCount_def add_keeps_entries)
  have remove: "\<forall>i<getAccountCount s - 1.
         rateLimitResetTimes (accounts (fst (removeAccount idx s)) ! i) =
           rateLimitResetTimes (if i < nat idx then accounts s ! i else accounts s ! Suc i)"
    if "0 \<le> idx \<and> idx < int (getAccountCount s)"
    using that by (simp add: getAccountCount_def remove_keeps_entries)
  have load: "\<forall>i<length (s_accounts d).
      rateLimitResetTimes (accounts (loadFromStorage (Some d) s) ! i) =
        (case s_rateLimitResetTimes (s_accounts d ! i) of None \<Rightarrow> Map.empty | Some m \<Rightarrow> m)"
    by (simp add: load_keeps_entries)
  have mark: "rateLimitResetTimes (markRateLimited now retry f style a) =
     (rateLimitResetTimes a)(getQuotaKey f style \<mapsto> now + retry)"
    by (simp add: markRateLimited_def)
  have tokens: "rateLimitResetTimes (updateAccountTokens token expires a) = rateLimitResetTimes a"
    by (simp add: updateAccountTokens_def)
  show ?thesis
    using absent_account absent_registry entries_clear [of now a] style next_purges [of now s f]
      sticky rotation every add remove load mark tokens
    by blast
qed

theorem lazy_expiry_witness:
  "rateLimitResetTimes
     (accounts (viaRef 0 (markRateLimited 100 60000 Gemini Antigravity) registry2) ! 0) QGeminiAntigravity
     = Some 60100 \<and>
   getCurrentAccountForFamily (viaRef 0 (markRateLimited 100 60000 Gemini Antigravity) registry2) Gemini
     = Some 0 \<and>
   isRateLimitedForFamily 70000
     (dropEntry QGeminiAntigravity
        (accounts (viaRef 0 (markRateLimited 100 60000 Gemini Antigravity) registry2) ! 0)) Gemini =
   isRateLimitedForFamily 70000
     (accounts (viaRef 0 (markRateLimited 100 60000 Gemini Antigravity) registry2) ! 0) Gemini \<and>
   snd (getNextForFamily 70000
          (viaRef 0 (dropEntry QGeminiAntigravity)
             (viaRef 0 (markRateLimited 100 60000 Gemini Antigravity) registry2)) Gemini) =
   snd (getNextForFamily 70000
          (viaRef 0 (markRateLimited 100 60000 Gemini Antigravity) registry2) Gemini) \<and>
   rateLimitResetTimes
     (fst (getAvailableHeaderStyle 70000
        (accounts (viaRef 0 (markRateLimited 100 60000 Gemini Antigravity) registry2) ! 0) Gemini))
     QGeminiAntigravity = None \<and>
   rateLimitResetTimes
     (accounts (fst (getCurrentOrNextForFamily 70000
        (viaRef 0 (markRateLimited 100 60000 Gemini Antigravity) registry2) Gemini)) ! 0)
     QGeminiAntigravity = None"
proof -
  let ?s = "viaRef 0 (markRateLimited 100 60000 Gemini Antigravity) registry2"
  have e: "rateLimitResetTimes (accounts ?s ! 0) QGeminiAntigravity = Some 60100"
    by (simp add: marked2_at0)
  have cur: "getCurrentAccountForFamily ?s Gemini = Some 0"
    by (simp add: getCurrentAccountForFamily_def viaRef_def registry2_eq)
  have w: "withoutExpired 70000 (rateLimitResetTimes (accounts ?s ! 0)) QGeminiAntigravity = None"
    by (simp add: marked2_at0 withoutExpired_def)
  show ?thesis
    using lazy_expiry [where a = "accounts ?s ! 0" and k = QGeminiAntigravity and r = 60100
        and now = 70000 and f = Gemini and s = ?s and p = 0 and q = 0] e cur w
    by simp
qed

end
